theory Spec2Isabelle
  imports Main
begin

section \<open>JavaScript values\<close>

text \<open>
  The values a row cell can hold. Numbers are restricted to integers (no floating point,
  no NaN); an object is its list of own properties. Arrays and functions are not cell
  values in this development.
\<close>

datatype jsval =
    JUndefined
  | JNull
  | JBool bool
  | JNum int
  | JStr string
  | JObj "(string \<times> jsval) list"

text \<open>A data row is an object: field name to value.\<close>

type_synonym row = "(string \<times> jsval) list"

text \<open>JavaScript truthiness (\<open>ToBoolean\<close>).\<close>

fun truthy :: "jsval \<Rightarrow> bool" where
  "truthy JUndefined = False"
| "truthy JNull = False"
| "truthy (JBool b) = b"
| "truthy (JNum n) = (n \<noteq> 0)"
| "truthy (JStr s) = (s \<noteq> [])"
| "truthy (JObj ps) = True"

text \<open>
  \<open>obj[name]\<close> on a value that is already known to be truthy: an own property of an
  object, \<open>undefined\<close> when the property is missing. The properties that JavaScript
  finds on the wrapper of a primitive (the \<open>length\<close> of a string) are not modelled:
  a primitive has no property here.
\<close>

fun get_prop :: "jsval \<Rightarrow> string \<Rightarrow> jsval" where
  "get_prop (JObj ps) name = (case map_of ps name of None \<Rightarrow> JUndefined | Some v \<Rightarrow> v)"
| "get_prop v name = JUndefined"

text \<open>\<open>path.split('.')\<close>: always at least one part.\<close>

fun split_dot :: "string \<Rightarrow> string list" where
  "split_dot [] = [[]]"
| "split_dot (c # cs) =
     (if c = CHR ''.'' then [] # split_dot cs
      else (case split_dot cs of [] \<Rightarrow> [[c]] | p # ps \<Rightarrow> (c # p) # ps))"

text \<open>
  \<open>getDescendantProperty(obj, path)\<close> of utilities.ts:
  \<^verbatim>\<open>if (!obj || !path) return obj;
  return path.split('.').reduce((acc, part) => acc && acc[part], obj);\<close>
\<close>

definition getDescendantProperty :: "jsval \<Rightarrow> string \<Rightarrow> jsval" where
  "getDescendantProperty obj path =
     (if \<not> truthy obj \<or> path = [] then obj
      else foldl (\<lambda>acc part. if truthy acc then get_prop acc part else acc) obj (split_dot path))"

section \<open>The sort comparison engine (sort.service.ts)\<close>

text \<open>
  Modelled from the spec: the enum \<open>SortDirectionNumber\<close> is declared outside the
  sources at hand; a comparison is three-way (negative, zero, positive), ascending is the
  positive unit, descending the negative unit and neutral is zero.
\<close>

definition SortDirectionNumber_asc :: int where "SortDirectionNumber_asc = 1"
definition SortDirectionNumber_desc :: int where "SortDirectionNumber_desc = - 1"
definition SortDirectionNumber_neutral :: int where "SortDirectionNumber_neutral = 0"

text \<open>
  The part of a column definition that \<open>sortComparer\<close> reads. \<open>'ft\<close> is the enum of
  field types, declared outside the sources at hand; \<open>col_type = None\<close> is a column
  whose \<open>type\<close> is missing or falsy. The custom comparator is called as
  \<open>sortComparer(value1, value2, sortDirection, columnDef, gridOptions)\<close>: its last two
  arguments are the column itself and the grid options of the service, fixed for a
  column, so the custom comparator of a column is a function of the two values and the
  direction.
\<close>

record 'ft Column =
  col_id :: string
  col_field :: string
  col_queryFieldSorter :: "string option"
  col_queryField :: "string option"
  col_queryFieldNameGetterFn :: "(row \<Rightarrow> string) option"
  col_type :: "'ft option"
  col_sortComparer :: "(jsval \<Rightarrow> jsval \<Rightarrow> int \<Rightarrow> int) option"

text \<open>A sort directive: \<open>{ columnId, sortAsc, sortCol? }\<close>.\<close>

record 'ft ColumnSort =
  columnId :: string
  sortAsc :: bool
  sortCol :: "'ft Column option"

text \<open>\<open>a || b\<close> on an optional string: the empty string and \<open>undefined\<close> are falsy.\<close>

definition or_name :: "string option \<Rightarrow> string \<Rightarrow> string" where
  "or_name a b = (case a of None \<Rightarrow> b | Some s \<Rightarrow> if s = [] then b else s)"

text \<open>
  The value of a row under a query field name: \<open>dataRow[name]\<close>, replaced by
  \<open>getDescendantProperty(dataRow, name)\<close> when the name holds a dot.
\<close>

definition row_value :: "row \<Rightarrow> string \<Rightarrow> jsval" where
  "row_value dataRow name =
     (if name \<noteq> [] \<and> CHR ''.'' \<in> set name then getDescendantProperty (JObj dataRow) name
      else get_prop (JObj dataRow) name)"

definition sortDirection_of :: "'ft ColumnSort \<Rightarrow> int" where
  "sortDirection_of sortColumn =
     (if sortAsc sortColumn then SortDirectionNumber_asc else SortDirectionNumber_desc)"

definition queryFieldName_of :: "'ft Column \<Rightarrow> string option \<Rightarrow> row \<Rightarrow> string" where
  "queryFieldName_of columnDef querySortField dataRow =
     (case col_queryFieldNameGetterFn columnDef of
        Some getter \<Rightarrow> getter dataRow
      | None \<Rightarrow>
          or_name querySortField
            (or_name (col_queryFieldSorter columnDef)
               (or_name (col_queryField columnDef) (col_field columnDef))))"

text \<open>
  \<open>sortComparer(sortColumn, dataRow1, dataRow2, querySortField?)\<close>; \<open>None\<close> is the
  \<open>undefined\<close> it returns. \<open>sortByFieldType\<close> (the generic, type-aware comparator of
  sortComparers/sortUtilities) and \<open>FieldType.string\<close> are outside the sources at hand
  and are parameters.
\<close>

definition sortComparer ::
  "('ft \<Rightarrow> jsval \<Rightarrow> jsval \<Rightarrow> int \<Rightarrow> 'ft Column \<Rightarrow> int) \<Rightarrow> 'ft \<Rightarrow>
   'ft ColumnSort \<Rightarrow> row \<Rightarrow> row \<Rightarrow> string option \<Rightarrow> int option" where
  "sortComparer sortByFieldType FieldType_string sortColumn dataRow1 dataRow2 querySortField =
     (case sortCol sortColumn of
        None \<Rightarrow> None
      | Some columnDef \<Rightarrow>
          (let sortDirection = sortDirection_of sortColumn;
               fieldType = (case col_type columnDef of None \<Rightarrow> FieldType_string | Some t \<Rightarrow> t);
               value1 = row_value dataRow1 (queryFieldName_of columnDef querySortField dataRow1);
               value2 = row_value dataRow2 (queryFieldName_of columnDef querySortField dataRow2)
           in case col_sortComparer columnDef of
                Some custom \<Rightarrow>
                  (let customSortResult = custom value1 value2 sortDirection
                   in if customSortResult \<noteq> SortDirectionNumber_neutral
                      then Some customSortResult else None)
              | None \<Rightarrow>
                  (let sortResult = sortByFieldType fieldType value1 value2 sortDirection columnDef
                   in if sortResult \<noteq> SortDirectionNumber_neutral
                      then Some sortResult else None)))"

text \<open>
  \<open>sortComparers(sortColumns, dataRow1, dataRow2)\<close>: the loop over the directives,
  left at the first result that is not \<open>undefined\<close>. \<open>None\<close> for \<open>sortColumns\<close> is an
  argument that is not an array.
\<close>

fun sortComparers_loop ::
  "('ft \<Rightarrow> jsval \<Rightarrow> jsval \<Rightarrow> int \<Rightarrow> 'ft Column \<Rightarrow> int) \<Rightarrow> 'ft \<Rightarrow>
   'ft ColumnSort list \<Rightarrow> row \<Rightarrow> row \<Rightarrow> int" where
  "sortComparers_loop sbft fts [] dataRow1 dataRow2 = SortDirectionNumber_neutral"
| "sortComparers_loop sbft fts (sortColumn # rest) dataRow1 dataRow2 =
     (case sortComparer sbft fts sortColumn dataRow1 dataRow2 None of
        Some result \<Rightarrow> result
      | None \<Rightarrow> sortComparers_loop sbft fts rest dataRow1 dataRow2)"

definition sortComparers ::
  "('ft \<Rightarrow> jsval \<Rightarrow> jsval \<Rightarrow> int \<Rightarrow> 'ft Column \<Rightarrow> int) \<Rightarrow> 'ft \<Rightarrow>
   'ft ColumnSort list option \<Rightarrow> row \<Rightarrow> row \<Rightarrow> int" where
  "sortComparers sbft fts sortColumns dataRow1 dataRow2 =
     (case sortColumns of
        None \<Rightarrow> SortDirectionNumber_neutral
      | Some cols \<Rightarrow> sortComparers_loop sbft fts cols dataRow1 dataRow2)"

text \<open>
  The comparison a single directive makes, as the specification words it: nothing to
  compare (neutral) without a column, the custom comparator of the column when it has
  one, the generic comparator otherwise.
\<close>

definition directive_comparison ::
  "('ft \<Rightarrow> jsval \<Rightarrow> jsval \<Rightarrow> int \<Rightarrow> 'ft Column \<Rightarrow> int) \<Rightarrow> 'ft \<Rightarrow>
   'ft ColumnSort \<Rightarrow> row \<Rightarrow> row \<Rightarrow> int" where
  "directive_comparison sbft fts sortColumn dataRow1 dataRow2 =
     (case sortCol sortColumn of
        None \<Rightarrow> 0
      | Some columnDef \<Rightarrow>
          (let value1 = row_value dataRow1 (queryFieldName_of columnDef None dataRow1);
               value2 = row_value dataRow2 (queryFieldName_of columnDef None dataRow2)
           in case col_sortComparer columnDef of
                Some custom \<Rightarrow> custom value1 value2 (sortDirection_of sortColumn)
              | None \<Rightarrow>
                  sbft (case col_type columnDef of None \<Rightarrow> fts | Some t \<Rightarrow> t)
                    value1 value2 (sortDirection_of sortColumn) columnDef))"

subsection \<open>Sample columns and comparators\<close>

text \<open>
  A custom comparator that accounts for the direction itself, as the fifth-argument
  signature allows, and one that ignores the direction.
\<close>

definition direction_aware_comparer :: "jsval \<Rightarrow> jsval \<Rightarrow> int \<Rightarrow> int" where
  "direction_aware_comparer value1 value2 sortDirection =
     (case (value1, value2) of
        (JNum a, JNum b) \<Rightarrow> sortDirection * sgn (a - b)
      | _ \<Rightarrow> 0)"

definition direction_blind_comparer :: "jsval \<Rightarrow> jsval \<Rightarrow> int \<Rightarrow> int" where
  "direction_blind_comparer value1 value2 sortDirection =
     (case (value1, value2) of
        (JNum a, JNum b) \<Rightarrow> sgn (a - b)
      | _ \<Rightarrow> 0)"

text \<open>A stand-in for the generic comparator: numeric comparison times the direction.\<close>

definition numeric_sortByFieldType ::
  "unit \<Rightarrow> jsval \<Rightarrow> jsval \<Rightarrow> int \<Rightarrow> unit Column \<Rightarrow> int" where
  "numeric_sortByFieldType fieldType value1 value2 sortDirection columnDef =
     (case (value1, value2) of
        (JNum a, JNum b) \<Rightarrow> sortDirection * sgn (a - b)
      | _ \<Rightarrow> 0)"

definition sample_column ::
  "string \<Rightarrow> (jsval \<Rightarrow> jsval \<Rightarrow> int \<Rightarrow> int) option \<Rightarrow> unit Column" where
  "sample_column name custom =
     \<lparr> col_id = name, col_field = name, col_queryFieldSorter = None, col_queryField = None,
       col_queryFieldNameGetterFn = None, col_type = None, col_sortComparer = custom \<rparr>"

definition sample_directive ::
  "string \<Rightarrow> bool \<Rightarrow> (jsval \<Rightarrow> jsval \<Rightarrow> int \<Rightarrow> int) option \<Rightarrow> unit ColumnSort" where
  "sample_directive name asc custom =
     \<lparr> columnId = name, sortAsc = asc, sortCol = Some (sample_column name custom) \<rparr>"

section \<open>The sort service state and \<open>updateSorting\<close> (sort.service.ts)\<close>

text \<open>\<open>String.prototype.toUpperCase\<close> on ASCII text.\<close>

definition toUpperCase_char :: "char \<Rightarrow> char" where
  "toUpperCase_char c =
     (let n = (of_char c :: nat) in if 97 \<le> n \<and> n \<le> 122 then char_of (n - 32) else c)"

definition toUpperCase :: "string \<Rightarrow> string" where
  "toUpperCase s = map toUpperCase_char s"

text \<open>A sorter as the caller gives it and as the service keeps it.\<close>

record CurrentSorter =
  cs_columnId :: string
  cs_direction :: string

text \<open>
  The backend service of the grid options, an external collaborator: whether it has the
  optional hooks \<open>updateSorters\<close> and \<open>getCurrentSorters\<close>, and the sorters it
  currently holds (what \<open>getCurrentSorters()\<close> returns; \<open>updateSorters(undefined,
  sorters)\<close> replaces them with the presets it is given).
\<close>

record BackendService =
  svc_has_updateSorters :: bool
  svc_has_getCurrentSorters :: bool
  svc_sorters :: "CurrentSorter list"

record BackendServiceApi =
  api_service :: "BackendService option"

text \<open>
  The grid options the sorting path reads. \<open>enableSorting = None\<close> is an option that is
  not set.
\<close>

record GridOption =
  enableSorting :: "bool option"
  backendServiceApi :: "BackendServiceApi option"

text \<open>The grid, an external collaborator: its options and its column definitions.\<close>

record 'ft SlickGrid =
  grid_options :: GridOption
  grid_columns :: "'ft Column list"

text \<open>
  What the service does to its collaborators, in the order it does it: calls on the
  backend service and the backend utilities, the local sort of the data view
  (\<open>onLocalSortChanged\<close>), the sort icons of the grid, and the events published on the
  bus.
\<close>

datatype 'ft effect =
    BackendUpdateSorters "CurrentSorter list"
  | RefreshBackendDataset
  | LocalSortChanged "'ft ColumnSort list"
  | GridSetSortColumns "(string \<times> bool) list"
  | Publish string "CurrentSorter list"

record 'ft SortService =
  svc_grid :: "'ft SlickGrid option"
  svc_currentLocalSorters :: "CurrentSorter list"
  svc_has_backendUtilities :: bool
  svc_effects :: "'ft effect list"

text \<open>
  How a call ends: it returns, or it throws. \<open>SortingNotEnabled\<close> is the \<open>Error\<close>
  of \<open>updateSorting\<close> whose message asks for sortable columns and \<open>enableSorting\<close>
  in the grid options; \<open>TypeError\<close> is what JavaScript throws when a method is called
  on \<open>undefined\<close>.
\<close>

datatype error = SortingNotEnabled | TypeError

datatype outcome = Returned | Thrown error

text \<open>
  The getter \<open>_gridOptions\<close>: the options of the grid, the empty object \<open>{}\<close> when
  there is no grid.
\<close>

definition gridOptions_of :: "'ft SortService \<Rightarrow> GridOption" where
  "gridOptions_of s =
     (case svc_grid s of
        Some g \<Rightarrow> grid_options g
      | None \<Rightarrow> \<lparr> enableSorting = None, backendServiceApi = None \<rparr>)"

definition columnDefinitions_of :: "'ft SortService \<Rightarrow> 'ft Column list" where
  "columnDefinitions_of s = (case svc_grid s of Some g \<Rightarrow> grid_columns g | None \<Rightarrow> [])"

definition log_effect :: "'ft effect \<Rightarrow> 'ft SortService \<Rightarrow> 'ft SortService" where
  "log_effect e s = s\<lparr>svc_effects := svc_effects s @ [e]\<rparr>"

datatype EmitterType = local | remote

text \<open>\<open>emitSortChanged(sender)\<close>, called without its optional second argument.\<close>

definition emitSortChanged :: "EmitterType \<Rightarrow> 'ft SortService \<Rightarrow> 'ft SortService" where
  "emitSortChanged sender s =
     (case (sender, backendServiceApi (gridOptions_of s)) of
        (remote, Some api) \<Rightarrow>
          (let currentSorters =
                 (case api_service api of
                    Some backendService \<Rightarrow>
                      if svc_has_getCurrentSorters backendService then svc_sorters backendService
                      else []
                  | None \<Rightarrow> [])
           in log_effect (Publish ''onSortChanged'' currentSorters) s)
      | (remote, None) \<Rightarrow> s
      | (local, _) \<Rightarrow> log_effect (Publish ''onSortChanged'' (svc_currentLocalSorters s)) s)"

text \<open>
  The body of the \<open>forEach\<close> of \<open>loadGridSorters\<close>: the sort columns collected so far
  and the service, for one sorter.
\<close>

definition loadGridSorters_step ::
  "'ft ColumnSort list \<times> 'ft SortService \<Rightarrow> CurrentSorter \<Rightarrow> 'ft ColumnSort list \<times> 'ft SortService" where
  "loadGridSorters_step acc sorter =
     (case acc of (sortCols, s) \<Rightarrow>
        (case List.find (\<lambda>col. col_id col = cs_columnId sorter) (columnDefinitions_of s) of
           None \<Rightarrow> (sortCols, s)
         | Some gridColumn \<Rightarrow>
             (sortCols @
                [\<lparr> columnId = col_id gridColumn,
                   sortAsc = (toUpperCase (cs_direction sorter) = ''ASC''),
                   sortCol = Some gridColumn \<rparr>],
              s\<lparr>svc_currentLocalSorters := svc_currentLocalSorters s @
                   [\<lparr> cs_columnId = col_id gridColumn,
                      cs_direction = toUpperCase (cs_direction sorter) \<rparr>]\<rparr>)))"

text \<open>
  \<open>loadGridSorters(sorters)\<close>. The enum member \<open>SortDirection.ASC\<close>, declared
  outside the sources at hand, is the string \<open>ASC\<close>. The local sort itself (\<open>onLocalSortChanged\<close>, which
  hands the comparator to the data view) and \<open>grid.setSortColumns\<close> are logged as
  effects on the collaborators.
\<close>

definition loadGridSorters ::
  "CurrentSorter list \<Rightarrow> 'ft SortService \<Rightarrow> 'ft ColumnSort list \<times> 'ft SortService" where
  "loadGridSorters sorters s =
     (case foldl loadGridSorters_step ([], s\<lparr>svc_currentLocalSorters := []\<rparr>) sorters of
        (sortCols, s1) \<Rightarrow>
          (sortCols,
           log_effect (GridSetSortColumns (map (\<lambda>col. (columnId col, sortAsc col)) sortCols))
             (log_effect (LocalSortChanged sortCols) s1)))"

text \<open>
  \<open>updateSorting(sorters, emitChangedEvent = true, triggerBackendQuery = true)\<close>. The
  result is the state of the service when the call ends and how it ends. \<open>sorters =
  None\<close> is an argument that is not an array. The backend service keeps the sorters it
  is given by \<open>updateSorters\<close>.
\<close>

definition updateSorting ::
  "CurrentSorter list option \<Rightarrow> bool \<Rightarrow> bool \<Rightarrow> 'ft SortService \<Rightarrow> 'ft SortService \<times> outcome" where
  "updateSorting sorters emitChangedEvent triggerBackendQuery s =
     (if enableSorting (gridOptions_of s) \<noteq> Some True
      then (s, Thrown SortingNotEnabled)
      else
        (case sorters of
           None \<Rightarrow> (s, Returned)
         | Some sorterList \<Rightarrow>
             (let backendApi = backendServiceApi (gridOptions_of s);
                  s1 =
                    (case backendApi of
                       Some api \<Rightarrow>
                         (case api_service api of
                            None \<Rightarrow> s
                          | Some backendApiService \<Rightarrow>
                              if svc_has_updateSorters backendApiService
                              then
                                (let s' = log_effect (BackendUpdateSorters sorterList)
                                            (s\<lparr>svc_grid :=
                                                map_option
                                                  (\<lambda>g. g\<lparr>grid_options := (grid_options g)
                                                     \<lparr>backendServiceApi :=
                                                        Some (api\<lparr>api_service :=
                                                          Some (backendApiService\<lparr>svc_sorters := sorterList\<rparr>)\<rparr>)\<rparr>\<rparr>)
                                                  (svc_grid s)\<rparr>)
                                 in if triggerBackendQuery \<and> svc_has_backendUtilities s'
                                    then log_effect RefreshBackendDataset s' else s')
                              else s)
                     | None \<Rightarrow> snd (loadGridSorters sorterList s));
                  s2 =
                    (if emitChangedEvent
                     then emitSortChanged (if backendApi \<noteq> None then remote else local) s1
                     else s1)
              in (s2, Returned))))"

subsection \<open>Sample services\<close>

definition unbound_service :: "unit SortService" where
  "unbound_service =
     \<lparr> svc_grid = None,
       svc_currentLocalSorters = [\<lparr> cs_columnId = ''a'', cs_direction = ''ASC'' \<rparr>],
       svc_has_backendUtilities = False,
       svc_effects = [] \<rparr>"

definition local_service :: "bool option \<Rightarrow> unit SortService" where
  "local_service enabled =
     \<lparr> svc_grid = Some \<lparr> grid_options = \<lparr> enableSorting = enabled, backendServiceApi = None \<rparr>,
                         grid_columns = [sample_column ''a'' None, sample_column ''b'' None] \<rparr>,
       svc_currentLocalSorters = [\<lparr> cs_columnId = ''a'', cs_direction = ''ASC'' \<rparr>],
       svc_has_backendUtilities = False,
       svc_effects = [] \<rparr>"

section \<open>Coercion and deduplication (utilities.ts)\<close>

text \<open>
  The decimal digits of a natural number, and \<open>String(n)\<close> for an integer. Numbers are
  the integers that JavaScript prints in decimal notation: from \<open>10^21\<close> on it prints an
  exponent form, which is not modelled.
\<close>

definition digit_char :: "nat \<Rightarrow> char" where
  "digit_char d = ''0123456789'' ! d"

fun digits_of_nat :: "nat \<Rightarrow> string" where
  "digits_of_nat n =
     (if n < 10 then [digit_char n]
      else digits_of_nat (n div 10) @ [digit_char (n mod 10)])"

definition string_of_int :: "int \<Rightarrow> string" where
  "string_of_int i = (if i < 0 then CHR ''-'' # digits_of_nat (nat (- i)) else digits_of_nat (nat i))"

text \<open>
  \<open>input + ''\<close>: the string form of a value. A plain object has the default
  \<open>toString\<close>.
\<close>

fun to_string :: "jsval \<Rightarrow> string" where
  "to_string JUndefined = ''undefined''"
| "to_string JNull = ''null''"
| "to_string (JBool b) = (if b then ''true'' else ''false'')"
| "to_string (JNum n) = string_of_int n"
| "to_string (JStr s) = s"
| "to_string (JObj ps) = ''[object Object]''"

text \<open>
  The regular expression \<open>/(true|1)/i\<close>: it has no anchors, so \<open>test\<close> looks for the
  pattern at every position of the string.
\<close>

fun matches_true_or_1_here :: "string \<Rightarrow> bool" where
  "matches_true_or_1_here (a # b # c # d # rest) =
     (a = CHR ''1'' \<or>
      ((a = CHR ''t'' \<or> a = CHR ''T'') \<and> (b = CHR ''r'' \<or> b = CHR ''R'') \<and>
       (c = CHR ''u'' \<or> c = CHR ''U'') \<and> (d = CHR ''e'' \<or> d = CHR ''E'')))"
| "matches_true_or_1_here (a # rest) = (a = CHR ''1'')"
| "matches_true_or_1_here [] = False"

fun regex_true_or_1_test :: "string \<Rightarrow> bool" where
  "regex_true_or_1_test [] = False"
| "regex_true_or_1_test (c # cs) =
     (matches_true_or_1_here (c # cs) \<or> regex_true_or_1_test cs)"

text \<open>\<open>parseBoolean(input)\<close>: \<^verbatim>\<open>return /(true|1)/i.test(input + '');\<close>\<close>

definition parseBoolean :: "jsval \<Rightarrow> bool" where
  "parseBoolean input = regex_true_or_1_test (to_string input)"

text \<open>
  The object \<open>seen = {}\<close> of \<open>dedupePrimitiveArray\<close>, as the list of the keys that
  were given the value 1. The key \<open>__proto__\<close> is the accessor of \<open>Object.prototype\<close>:
  reading it gives the prototype object (never 1), and assigning the number 1 to it is
  ignored. Every other key becomes an own property; before that, reading it gives
  \<open>undefined\<close> or an inherited function, never 1.
\<close>

definition seen_is_1 :: "string list \<Rightarrow> string \<Rightarrow> bool" where
  "seen_is_1 seen key = (key \<noteq> ''__proto__'' \<and> key \<in> set seen)"

definition seen_set_1 :: "string list \<Rightarrow> string \<Rightarrow> string list" where
  "seen_set_1 seen key = (if key = ''__proto__'' then seen else key # seen)"

text \<open>
  The loop of \<open>dedupePrimitiveArray\<close> over the rest of the input, with \<open>seen\<close> and
  \<open>out\<close> (\<open>out[j++] = item\<close> appends).
\<close>

fun dedupe_loop :: "string list \<Rightarrow> jsval list \<Rightarrow> jsval list \<Rightarrow> jsval list" where
  "dedupe_loop seen out [] = out"
| "dedupe_loop seen out (item # rest) =
     (if \<not> seen_is_1 seen (to_string item)
      then dedupe_loop (seen_set_1 seen (to_string item)) (out @ [item]) rest
      else dedupe_loop seen out rest)"

definition dedupePrimitiveArray :: "jsval list \<Rightarrow> jsval list" where
  "dedupePrimitiveArray inputArray = dedupe_loop [] [] inputArray"

text \<open>The inputs the function accepts: numbers and strings.\<close>

fun is_primitive :: "jsval \<Rightarrow> bool" where
  "is_primitive (JNum n) = True"
| "is_primitive (JStr s) = True"
| "is_primitive v = False"

section \<open>Flat and hierarchical datasets (utilities.ts)\<close>

text \<open>
  A row of a tree dataset, reduced to the properties the conversions read or write.
  Identifiers are integers, so that \<open>===\<close> on identifiers and equality of the property
  keys made from them agree, and no key meets a property of \<open>Object.prototype\<close>. The
  fields stand for the properties the options name, taken to be pairwise different (as
  the default names are):
  \<^item> \<open>r_id\<close>: the property \<open>identifierPropName\<close> (default \<open>id\<close>);
  \<^item> \<open>r_parent\<close>: the property \<open>parentPropName\<close> that
    \<open>convertParentChildFlatArrayToHierarchicalView\<close> reads (default \<open>parentId\<close>):
    missing, \<open>null\<close> or an identifier;
  \<^item> \<open>r_treeLevel\<close>, \<open>r_hasChildren\<close>: the bookkeeping properties
    \<open>__treeLevel\<close> and \<open>__hasChildren\<close>, \<open>None\<close> when the row has no such property;
  \<^item> \<open>r_parentId\<close>: the property \<open>parentIdPropName\<close> that the flattening writes
    (default \<open>__parentId\<close>).
\<close>

datatype parent_ref = ParentAbsent | ParentNull | ParentId int

record tree_row =
  r_id :: int
  r_parent :: parent_ref
  r_treeLevel :: "int option"
  r_hasChildren :: "bool option"
  r_parentId :: parent_ref

subsection \<open>Objects in a store\<close>

text \<open>
  \<open>convertParentChildFlatArrayToHierarchicalView\<close> builds its result by mutating
  objects that several arrays refer to, so its model works on a store: a list of
  objects, an object's address being its index. An object is a row with its
  \<open>childrenPropName\<close> property: missing, or an array of references. Allocation appends.
  \<open>h_plain\<close> tells whether the object is a plain object in the sense of
  \<open>jQuery.isPlainObject\<close> (an object literal, \<open>new Object\<close> or \<open>Object.create(null)\<close>)
  or not (an instance of a class).
\<close>

record heap_obj =
  h_row :: tree_row
  h_children :: "nat list option"
  h_plain :: bool

type_synonym heap = "heap_obj list"

text \<open>
  \<open>$.extend(true, [], array)\<close> of jQuery: the deep copy of an array. For each element,
  and in turn for each element of an array of children, jQuery recurses when the value
  is a plain object or an array, and builds a fresh plain object or a fresh array; any
  other object, such as an instance of a class, is handed over by reference, with all
  that it refers to. So \<open>extend_obj\<close> returns the address it is given, in the store it
  is given, for an object that is not plain, and the address of a fresh copy otherwise.
  The recursion of jQuery does not end on a cyclic structure of plain objects; the fuel
  bounds the depth and \<open>None\<close> is a copy that did not end within it.
\<close>

fun extend_obj :: "nat \<Rightarrow> heap \<Rightarrow> nat \<Rightarrow> (nat \<times> heap) option"
  and extend_array :: "nat \<Rightarrow> heap \<Rightarrow> nat list \<Rightarrow> (nat list \<times> heap) option" where
  "extend_obj 0 h a = None"
| "extend_obj (Suc n) h a =
     (if \<not> h_plain (h ! a) then Some (a, h)
      else
        (case h_children (h ! a) of
           None \<Rightarrow> Some (length h, h @ [h ! a])
         | Some cs \<Rightarrow>
             (case extend_array n h cs of
                None \<Rightarrow> None
              | Some (cs', h') \<Rightarrow> Some (length h', h' @ [(h ! a)\<lparr>h_children := Some cs'\<rparr>]))))"
| "extend_array n h [] = Some ([], h)"
| "extend_array n h (c # cs) =
     (case extend_obj n h c of
        None \<Rightarrow> None
      | Some (c', h1) \<Rightarrow>
          (case extend_array n h1 cs of
             None \<Rightarrow> None
           | Some (cs', h2) \<Rightarrow> Some (c' # cs', h2)))"

text \<open>
  An array whose deep copy ends within the fuel: its references are valid and the plain
  objects under it are nested no deeper than the fuel (an object that is not plain ends
  the recursion). And an array of references to plain objects whose children, to every
  depth, are plain objects as well, nested no deeper than the fuel: what the deep copy
  clones entirely.
\<close>

fun copy_ends :: "nat \<Rightarrow> heap \<Rightarrow> nat \<Rightarrow> bool"
  and copies_end :: "nat \<Rightarrow> heap \<Rightarrow> nat list \<Rightarrow> bool" where
  "copy_ends 0 h a = False"
| "copy_ends (Suc n) h a =
     (a < length h
      \<and> (if \<not> h_plain (h ! a) then True
         else (case h_children (h ! a) of None \<Rightarrow> True | Some cs \<Rightarrow> copies_end n h cs)))"
| "copies_end n h [] = True"
| "copies_end n h (c # cs) = (copy_ends n h c \<and> copies_end n h cs)"

fun plain_tree :: "nat \<Rightarrow> heap \<Rightarrow> nat \<Rightarrow> bool"
  and plain_trees :: "nat \<Rightarrow> heap \<Rightarrow> nat list \<Rightarrow> bool" where
  "plain_tree 0 h a = False"
| "plain_tree (Suc n) h a =
     (a < length h \<and> h_plain (h ! a)
      \<and> (case h_children (h ! a) of None \<Rightarrow> True | Some cs \<Rightarrow> plain_trees n h cs))"
| "plain_trees n h [] = True"
| "plain_trees n h (c # cs) = (plain_tree n h c \<and> plain_trees n h cs)"

text \<open>
  The lookup \<open>all\<close>: \<^verbatim>\<open>inputArray.forEach((item) => all[item[identifierPropName]] = item)\<close>.
  A later row with the same identifier replaces the earlier one.
\<close>

definition build_all :: "heap \<Rightarrow> nat list \<Rightarrow> (int \<rightharpoonup> nat)" where
  "build_all h inputArray = foldl (\<lambda>m a. m(r_id (h_row (h ! a)) \<mapsto> a)) Map.empty inputArray"

text \<open>
  \<open>Object.keys(all)\<close>: the keys that are array indices (the integers from 0 to
  \<open>2^32 - 2\<close>) in ascending order, then the other keys in the order they were first
  assigned.
\<close>

definition is_array_index :: "int \<Rightarrow> bool" where
  "is_array_index k = (0 \<le> k \<and> k < 4294967295)"

definition object_keys :: "int list \<Rightarrow> int list" where
  "object_keys ids =
     sort (remdups (filter is_array_index ids))
     @ rev (remdups (rev (filter (\<lambda>k. \<not> is_array_index k) ids)))"

text \<open>
  The two mutations of the loop body. \<open>push_child p a\<close> is
  \<^verbatim>\<open>if (!(childrenPropName in p)) { p[childrenPropName] = []; } p[childrenPropName].push(item);\<close>
  and \<open>delete_bookkeeping a\<close> is
  \<^verbatim>\<open>delete item[treeLevelPropName]; delete item[hasChildrenFlagPropName];\<close>
\<close>

definition push_child :: "nat \<Rightarrow> nat \<Rightarrow> heap \<Rightarrow> heap" where
  "push_child p a h =
     h[p := (h ! p)\<lparr>h_children :=
          Some ((case h_children (h ! p) of None \<Rightarrow> [] | Some cs \<Rightarrow> cs) @ [a])\<rparr>]"

definition delete_bookkeeping :: "nat \<Rightarrow> heap \<Rightarrow> heap" where
  "delete_bookkeeping a h =
     h[a := (h ! a)\<lparr>h_row := (h_row (h ! a))\<lparr>r_treeLevel := None, r_hasChildren := None\<rparr>\<rparr>]"

text \<open>
  The body of \<open>Object.keys(all).forEach((id) => ...)\<close>: the roots so far and the store,
  for one key. A row whose parent is \<open>null\<close> or missing is pushed to the roots; a row
  whose parent is a key of \<open>all\<close> is pushed to that parent's children, created on the
  first child; a row whose parent is not a key of \<open>all\<close> is pushed nowhere. Then the
  two bookkeeping properties of the row are deleted.
\<close>

definition connect :: "(int \<rightharpoonup> nat) \<Rightarrow> nat list \<times> heap \<Rightarrow> int \<Rightarrow> nat list \<times> heap" where
  "connect all acc key =
     (case acc of (roots, h) \<Rightarrow>
        (case all key of
           None \<Rightarrow> (roots, h)
         | Some a \<Rightarrow>
             (let (roots1, h1) =
                    (case r_parent (h_row (h ! a)) of
                       ParentNull \<Rightarrow> (roots @ [a], h)
                     | ParentAbsent \<Rightarrow> (roots @ [a], h)
                     | ParentId parent \<Rightarrow>
                         (case all parent of
                            None \<Rightarrow> (roots, h)
                          | Some p \<Rightarrow> (roots, push_child p a h)))
              in (roots1, delete_bookkeeping a h1))))"

text \<open>
  \<open>convertParentChildFlatArrayToHierarchicalView(flatArray, options)\<close>: the array of
  roots and the store after the call; \<open>None\<close> when the deep copy of the input does not
  end within the fuel.
\<close>

definition convertParentChildFlatArrayToHierarchicalView ::
  "nat \<Rightarrow> heap \<Rightarrow> nat list \<Rightarrow> (nat list \<times> heap) option" where
  "convertParentChildFlatArrayToHierarchicalView fuel h flatArray =
     (case extend_array fuel h flatArray of
        None \<Rightarrow> None
      | Some (inputArray, h1) \<Rightarrow>
          (let all = build_all h1 inputArray
           in Some (foldl (connect all) ([], h1)
                      (object_keys (map (\<lambda>a. r_id (h_row (h1 ! a))) inputArray)))))"

subsection \<open>Hierarchical datasets as values\<close>

text \<open>
  An element of a hierarchical array: \<open>null\<close> (any falsy element), or a row with its
  children property, missing or an array.
\<close>

datatype node = NullItem | Node tree_row "node list option"

text \<open>
  The value of the object graph under an array of references: what a reader of the
  array sees, each object with its children, to the depth the fuel allows.
\<close>

fun tree_of :: "nat \<Rightarrow> heap \<Rightarrow> nat \<Rightarrow> node option"
  and trees_of :: "nat \<Rightarrow> heap \<Rightarrow> nat list \<Rightarrow> node list option" where
  "tree_of 0 h a = None"
| "tree_of (Suc n) h a =
     (case h_children (h ! a) of
        None \<Rightarrow> Some (Node (h_row (h ! a)) None)
      | Some cs \<Rightarrow>
          (case trees_of n h cs of
             None \<Rightarrow> None
           | Some ts \<Rightarrow> Some (Node (h_row (h ! a)) (Some ts))))"
| "trees_of n h [] = Some []"
| "trees_of n h (c # cs) =
     (case tree_of n h c of
        None \<Rightarrow> None
      | Some t \<Rightarrow> (case trees_of n h cs of None \<Rightarrow> None | Some ts \<Rightarrow> Some (t # ts)))"

text \<open>\<open>parentId || null\<close>: the identifier 0 is falsy.\<close>

definition parentId_or_null :: "int option \<Rightarrow> parent_ref" where
  "parentId_or_null parentId =
     (case parentId of None \<Rightarrow> ParentNull | Some p \<Rightarrow> if p = 0 then ParentNull else ParentId p)"

text \<open>
  \<open>convertHierarchicalViewToFlatArrayByOutputArrayReference(hierarchicalArray,
  outputArray, options, treeLevel, parentId)\<close>, returning the output array. The input
  is a value: no object occurs twice in it or is shared with the output array, as after
  the deep copy of plain objects in \<open>convertHierarchicalViewToFlatArray\<close>. The output rows are shown
  without the children property. A pushed item is the last element of the output at that
  moment, at index \<open>length outputArray\<close>; when the recursion into its children is
  over, the item gets its has-children flag and loses its children there.
\<close>

fun flatten_into :: "node list \<Rightarrow> tree_row list \<Rightarrow> int \<Rightarrow> int option \<Rightarrow> tree_row list" where
  "flatten_into [] outputArray treeLevel parentId = outputArray"
| "flatten_into (NullItem # rest) outputArray treeLevel parentId =
     flatten_into rest outputArray treeLevel parentId"
| "flatten_into (Node item children # rest) outputArray treeLevel parentId =
     (let itemExist = List.find (\<lambda>itm. r_id itm = r_id item) outputArray;
          out1 = (if itemExist = None
                  then outputArray @
                       [item\<lparr>r_treeLevel := Some treeLevel,
                             r_parentId := parentId_or_null parentId\<rparr>]
                  else outputArray)
      in case children of
           None \<Rightarrow> flatten_into rest out1 treeLevel parentId
         | Some cs \<Rightarrow>
             (let out2 = flatten_into cs out1 (treeLevel + 1) (Some (r_id item));
                  out3 = (if itemExist = None
                          then out2[length outputArray :=
                                 (out2 ! length outputArray)\<lparr>r_hasChildren := Some True\<rparr>]
                          else out2)
              in flatten_into rest out3 treeLevel parentId))"

definition convertHierarchicalViewToFlatArrayByOutputArrayReference ::
  "node list \<Rightarrow> tree_row list \<Rightarrow> int \<Rightarrow> int option \<Rightarrow> tree_row list" where
  "convertHierarchicalViewToFlatArrayByOutputArrayReference hierarchicalArray outputArray
       treeLevel parentId =
     flatten_into hierarchicalArray outputArray treeLevel parentId"

text \<open>
  \<open>convertHierarchicalViewToFlatArray(hierarchicalArray, options)\<close>: the deep copy of a
  value is the value.
\<close>

definition convertHierarchicalViewToFlatArray :: "node list \<Rightarrow> tree_row list" where
  "convertHierarchicalViewToFlatArray hierarchicalArray =
     convertHierarchicalViewToFlatArrayByOutputArrayReference hierarchicalArray [] 0 None"

text \<open>The identifiers of a hierarchical array, in the order a depth-first walk meets them.\<close>

fun node_ids :: "node \<Rightarrow> int list" where
  "node_ids NullItem = []"
| "node_ids (Node item None) = [r_id item]"
| "node_ids (Node item (Some cs)) = r_id item # concat (map node_ids cs)"

text \<open>
  A store that extends another by allocation, and a store in which the objects allocated
  since a base length refer, in their children, only to objects allocated since then.
\<close>

definition extends :: "heap \<Rightarrow> heap \<Rightarrow> bool" where
  "extends h h' = (\<exists>ext. h' = h @ ext)"

definition fresh_closed :: "nat \<Rightarrow> heap \<Rightarrow> bool" where
  "fresh_closed L h =
     (\<forall>a cs. L \<le> a \<and> a < length h \<and> h_children (h ! a) = Some cs
        \<longrightarrow> (\<forall>c \<in> set cs. L \<le> c \<and> c < length h))"

text \<open>The objects that can be reached from an array of references through children.\<close>

inductive_set reach :: "heap \<Rightarrow> nat list \<Rightarrow> nat set" for h :: heap and roots :: "nat list" where
  root: "r \<in> set roots \<Longrightarrow> r \<in> reach h roots"
| child: "a \<in> reach h roots \<Longrightarrow> h_children (h ! a) = Some cs \<Longrightarrow> c \<in> set cs
          \<Longrightarrow> c \<in> reach h roots"

text \<open>A row without a parent: the parent property is missing or \<open>null\<close>.\<close>

definition parentless :: "tree_row \<Rightarrow> bool" where
  "parentless r = (r_parent r = ParentAbsent \<or> r_parent r = ParentNull)"

text \<open>
  What the connecting loop keeps true of the lookup \<open>all\<close>, and of its state against
  the store \<open>h1\<close> it started from: the store keeps its size, no identifier and no parent
  changes, an object outside the lookup is untouched, and every root is an object of the
  lookup without a parent.
\<close>

definition all_ok :: "heap \<Rightarrow> nat set \<Rightarrow> (int \<rightharpoonup> nat) \<Rightarrow> bool" where
  "all_ok h S m = (\<forall>k a. m k = Some a \<longrightarrow> a \<in> S \<and> r_id (h_row (h ! a)) = k)"

definition conn_inv :: "(int \<rightharpoonup> nat) \<Rightarrow> heap \<Rightarrow> nat list \<times> heap \<Rightarrow> bool" where
  "conn_inv all h1 acc =
     (length (snd acc) = length h1
      \<and> (\<forall>a. r_id (h_row (snd acc ! a)) = r_id (h_row (h1 ! a)))
      \<and> (\<forall>a. r_parent (h_row (snd acc ! a)) = r_parent (h_row (h1 ! a)))
      \<and> (\<forall>a. a \<notin> ran all \<longrightarrow> snd acc ! a = h1 ! a)
      \<and> (\<forall>r \<in> set (fst acc). r \<in> ran all \<and> parentless (h_row (h1 ! r))))"

text \<open>
  The identifiers of an output in order, as the specification words the flattening: an
  identifier met in the walk is appended unless the output already holds it.
\<close>

definition add_new :: "int list \<Rightarrow> int \<Rightarrow> int list" where
  "add_new acc i = (if i \<in> set acc then acc else acc @ [i])"

text \<open>The identifiers of the returned roots, read in the returned store.\<close>

definition root_ids :: "(nat list \<times> heap) option \<Rightarrow> int list option" where
  "root_ids res =
     (case res of None \<Rightarrow> None | Some (roots, h) \<Rightarrow> Some (map (\<lambda>r. r_id (h_row (h ! r))) roots))"

text \<open>
  The round trip: the flat rows to the hierarchical form, the value of that form, and
  back to flat rows. \<open>fuel\<close> bounds the depth of objects read.
\<close>

definition round_trip :: "nat \<Rightarrow> heap \<Rightarrow> nat list \<Rightarrow> tree_row list option" where
  "round_trip fuel h flatArray =
     (case convertParentChildFlatArrayToHierarchicalView fuel h flatArray of
        None \<Rightarrow> None
      | Some (roots, h') \<Rightarrow>
          (case trees_of fuel h' roots of
             None \<Rightarrow> None
           | Some hierarchicalArray \<Rightarrow> Some (convertHierarchicalViewToFlatArray hierarchicalArray)))"

subsection \<open>Sample rows\<close>

text \<open>A row written as an object literal, and the same row as an instance of a class.\<close>

definition flat_row :: "int \<Rightarrow> parent_ref \<Rightarrow> heap_obj" where
  "flat_row i p =
     \<lparr> h_row = \<lparr> r_id = i, r_parent = p, r_treeLevel = None, r_hasChildren = None,
                 r_parentId = ParentAbsent \<rparr>,
       h_children = None, h_plain = True \<rparr>"

definition class_row :: "int \<Rightarrow> parent_ref \<Rightarrow> heap_obj" where
  "class_row i p = (flat_row i p)\<lparr>h_plain := False\<rparr>"

definition chain_rows :: heap where
  "chain_rows = [flat_row 1 ParentAbsent, flat_row 2 (ParentId 1), flat_row 3 (ParentId 2)]"

definition dangling_rows :: heap where
  "dangling_rows = [flat_row 1 ParentAbsent, flat_row 2 (ParentId 99)]"

text \<open>
  The rows \<open>[{id: 1, children: [{id: 5}]}, {id: 2, parentId: 1}]\<close>, all object
  literals: the objects 0 and 1 are the rows of the array and the object 2 is the
  nested row. And the rows \<open>[{id: 1}, {id: 2, parentId: 1}]\<close> as instances of a class.
\<close>

definition nested_rows :: heap where
  "nested_rows = [(flat_row 1 ParentAbsent)\<lparr>h_children := Some [2]\<rparr>,
                  flat_row 2 (ParentId 1), flat_row 5 ParentAbsent]"

definition instance_rows :: heap where
  "instance_rows = [class_row 1 ParentAbsent, class_row 2 (ParentId 1)]"

text \<open>
  The row \<open>[{id: 1, children: [c]}]\<close>, an object literal whose only child \<open>c\<close> is an
  instance of a class with the identifier 5: the object 0 is the row and the object 1
  is the child.
\<close>

definition mixed_rows :: heap where
  "mixed_rows = [(flat_row 1 ParentAbsent)\<lparr>h_children := Some [1]\<rparr>, class_row 5 ParentAbsent]"

definition sample_row :: "int \<Rightarrow> tree_row" where
  "sample_row i =
     \<lparr> r_id = i, r_parent = ParentAbsent, r_treeLevel = None, r_hasChildren = None,
       r_parentId = ParentAbsent \<rparr>"

text \<open>
  A malformed tree: the identifier 1 is met again among the children of the node 1, and
  the identifier 2 again at the top level.
\<close>

definition malformed_tree :: "node list" where
  "malformed_tree =
     [Node (sample_row 1) (Some [Node (sample_row 2) None, Node (sample_row 1) None]),
      Node (sample_row 2) None]"

subsection \<open>What the hierarchical form holds\<close>

text \<open>
  The row that stands for an identifier in a flat array: the last row with it, as in the
  lookup \<open>all\<close>. An identifier is rooted when its row has no parent, or the parent of
  its row is a rooted identifier: the chain of parent references ends at a row without
  parent, and is neither dangling nor cyclic.
\<close>

definition flat_lookup :: "heap \<Rightarrow> nat list \<Rightarrow> (int \<rightharpoonup> tree_row)" where
  "flat_lookup h flatArray =
     foldl (\<lambda>m a. m(r_id (h_row (h ! a)) \<mapsto> h_row (h ! a))) Map.empty flatArray"

inductive rooted :: "(int \<rightharpoonup> tree_row) \<Rightarrow> int \<Rightarrow> bool" for lk :: "int \<rightharpoonup> tree_row" where
  top: "lk k = Some r \<Longrightarrow> parentless r \<Longrightarrow> rooted lk k"
| sub: "lk k = Some r \<Longrightarrow> r_parent r = ParentId p \<Longrightarrow> rooted lk p \<Longrightarrow> rooted lk k"

text \<open>The identifier of an object, and the set of the children of an object.\<close>

definition obj_id :: "heap \<Rightarrow> nat \<Rightarrow> int" where
  "obj_id h a = r_id (h_row (h ! a))"

definition children_set :: "heap \<Rightarrow> nat \<Rightarrow> nat set" where
  "children_set h a = (case h_children (h ! a) of None \<Rightarrow> {} | Some cs \<Rightarrow> set cs)"

text \<open>
  The parent object of an object of the lookup, and what the connecting loop keeps true
  once it has gone through the keys \<open>K\<close>: the children of an object of the lookup are
  the objects under a key of \<open>K\<close> whose parent it is, and the roots are the objects
  under a key of \<open>K\<close> without parent.
\<close>

definition parent_obj :: "(int \<rightharpoonup> nat) \<Rightarrow> heap \<Rightarrow> nat \<Rightarrow> nat option" where
  "parent_obj all h1 c =
     (case r_parent (h_row (h1 ! c)) of ParentId p \<Rightarrow> all p | _ \<Rightarrow> None)"

definition linked :: "(int \<rightharpoonup> nat) \<Rightarrow> heap \<Rightarrow> int set \<Rightarrow> nat list \<times> heap \<Rightarrow> bool" where
  "linked all h1 K acc =
     ((\<forall>a \<in> ran all. children_set (snd acc) a
          = {c. \<exists>k \<in> K. all k = Some c \<and> parent_obj all h1 c = Some a})
      \<and> set (fst acc) = {c. \<exists>k \<in> K. all k = Some c \<and> parentless (h_row (h1 ! c))})"

text \<open>
  The depth of an object under the roots, and a store region \<open>A\<close> that is a forest
  under the roots for a parent function: a root has no parent, and a child of an object
  of the region is in the region and has that object as its parent.
\<close>

inductive at_depth :: "heap \<Rightarrow> nat list \<Rightarrow> nat \<Rightarrow> nat \<Rightarrow> bool" for h :: heap and roots :: "nat list" where
  root: "r \<in> set roots \<Longrightarrow> at_depth h roots 0 r"
| child: "at_depth h roots d a \<Longrightarrow> h_children (h ! a) = Some cs \<Longrightarrow> c \<in> set cs
          \<Longrightarrow> at_depth h roots (Suc d) c"

definition forest :: "heap \<Rightarrow> nat list \<Rightarrow> nat set \<Rightarrow> (nat \<Rightarrow> nat option) \<Rightarrow> bool" where
  "forest h roots A par =
     (finite A
      \<and> (\<forall>r \<in> set roots. r \<in> A \<and> par r = None)
      \<and> (\<forall>a \<in> A. \<forall>c \<in> children_set h a. c \<in> A \<and> par c = Some a))"

section \<open>The roll-up of tree items (utilities.ts)\<close>

text \<open>
  A row of the dataset, reduced to what \<open>modifyDatasetToAddTreeItemsMapping\<close> reads or
  writes: the identifier the data view knows the row by, the property \<open>parentPropName\<close>
  (default \<open>__parentId\<close>), the value of the tree column (the property
  \<open>treeDataColumn.id\<close>, which seeds the roll-up), and the roll-up list itself (the
  property \<open>itemMapPropName\<close>, default \<open>__treeItems\<close>), \<open>None\<close> when the row has
  none. The rows are objects shared by \<open>items\<close> and the data view: the dataset is the
  list of the rows, a row being known by its index.
\<close>

record roll_row =
  i_id :: int
  i_parent :: parent_ref
  i_value :: jsval
  i_treeItems :: "jsval list option"

text \<open>
  Modelled from the spec: \<open>dataView.getItemById\<close> is the identifier-keyed lookup of the
  row source, \<open>getById(id) -> Row | undefined\<close>, over the rows of the dataset; the data
  view itself is outside the sources at hand.
\<close>

definition getItemById :: "roll_row list \<Rightarrow> int \<Rightarrow> nat option" where
  "getItemById ds ident = List.find (\<lambda>j. i_id (ds ! j) = ident) [0..<length ds]"

text \<open>
  \<open>dataView.getItemById(item[parentPropName])\<close>: nothing is found for a parent that is
  \<open>null\<close> or missing.
\<close>

definition parent_of :: "roll_row list \<Rightarrow> nat \<Rightarrow> nat option" where
  "parent_of ds item =
     (case i_parent (ds ! item) of ParentId p \<Rightarrow> getItemById ds p | _ \<Rightarrow> None)"

text \<open>
  The loop \<open>while (parent) { ... }\<close>, from the current \<open>item\<close> and \<open>parent\<close>. It does
  not end when the parent references form a cycle: the fuel bounds the number of
  iterations and \<open>None\<close> is a loop that did not end within it. Calling \<open>concat\<close> on a
  parent without a roll-up list throws.
\<close>

fun walk_up :: "nat \<Rightarrow> roll_row list \<Rightarrow> nat \<Rightarrow> nat option \<Rightarrow> (error + roll_row list) option" where
  "walk_up fuel ds item None = Some (Inr ds)"
| "walk_up 0 ds item (Some parent) = None"
| "walk_up (Suc fuel) ds item (Some parent) =
     (case i_treeItems (ds ! parent) of
        None \<Rightarrow> Some (Inl TypeError)
      | Some parentItems \<Rightarrow>
          (let itemItems = (case i_treeItems (ds ! item) of None \<Rightarrow> [JUndefined] | Some xs \<Rightarrow> xs);
               ds' = ds[parent := (ds ! parent)
                        \<lparr>i_treeItems := Some (dedupePrimitiveArray (parentItems @ itemItems))\<rparr>]
           in walk_up fuel ds' parent (parent_of ds' parent)))"

text \<open>The body of the \<open>for\<close> loop, for the row at index \<open>i\<close>.\<close>

definition rollup_item :: "nat \<Rightarrow> roll_row list \<Rightarrow> nat \<Rightarrow> (error + roll_row list) option" where
  "rollup_item fuel ds i =
     (let ds1 = ds[i := (ds ! i)\<lparr>i_treeItems := Some [i_value (ds ! i)]\<rparr>]
      in if i_parent (ds1 ! i) \<noteq> ParentNull
         then walk_up fuel ds1 i (parent_of ds1 i)
         else Some (Inr ds1))"

fun rollup_loop :: "nat \<Rightarrow> nat list \<Rightarrow> roll_row list \<Rightarrow> (error + roll_row list) option" where
  "rollup_loop fuel [] ds = Some (Inr ds)"
| "rollup_loop fuel (i # rest) ds =
     (case rollup_item fuel ds i of
        None \<Rightarrow> None
      | Some (Inl e) \<Rightarrow> Some (Inl e)
      | Some (Inr ds') \<Rightarrow> rollup_loop fuel rest ds')"

text \<open>
  \<open>modifyDatasetToAddTreeItemsMapping(items, treeDataColumn, dataView)\<close>, the data view
  holding the rows of \<open>items\<close>.
\<close>

definition modifyDatasetToAddTreeItemsMapping ::
  "nat \<Rightarrow> roll_row list \<Rightarrow> (error + roll_row list) option" where
  "modifyDatasetToAddTreeItemsMapping fuel items = rollup_loop fuel [0..<length items] items"

text \<open>
  \<open>in_subtree ds a j\<close>: the row \<open>j\<close> is the row \<open>a\<close> or one of its descendants, following
  the parent references through the lookup.
\<close>

inductive in_subtree :: "roll_row list \<Rightarrow> nat \<Rightarrow> nat \<Rightarrow> bool" for ds :: "roll_row list" and a :: nat where
  self: "in_subtree ds a a"
| step: "parent_of ds j = Some k \<Longrightarrow> in_subtree ds a k \<Longrightarrow> in_subtree ds a j"

text \<open>
  A dataset in the order the flattening produces: identifiers are unique, and a row whose
  parent is found comes after it.
\<close>

definition parents_first :: "roll_row list \<Rightarrow> bool" where
  "parents_first ds =
     (distinct (map i_id ds)
      \<and> (\<forall>j < length ds. \<forall>k. parent_of ds j = Some k \<longrightarrow> k < j))"

text \<open>The string forms of the values of a list: what the deduplication tells apart.\<close>

definition keys_of :: "jsval list \<Rightarrow> string set" where
  "keys_of xs = to_string ` set xs"

subsection \<open>Sample datasets\<close>

definition roll_row_of :: "int \<Rightarrow> parent_ref \<Rightarrow> roll_row" where
  "roll_row_of i p = \<lparr> i_id = i, i_parent = p, i_value = JNum i, i_treeItems = None \<rparr>"

definition chain_dataset :: "roll_row list" where
  "chain_dataset = [roll_row_of 1 ParentNull, roll_row_of 2 (ParentId 1), roll_row_of 3 (ParentId 2)]"

definition child_first_dataset :: "roll_row list" where
  "child_first_dataset = [roll_row_of 2 (ParentId 1), roll_row_of 1 ParentNull]"

text \<open>
  \<open>same_shape ds cur\<close>: \<open>cur\<close> is \<open>ds\<close> up to the roll-up lists. \<open>rolled ds i j\<close>: the
  string forms of the tree-column values of the rows below index \<open>i\<close> that are the row
  \<open>j\<close> or descendants of it.
\<close>

definition same_shape :: "roll_row list \<Rightarrow> roll_row list \<Rightarrow> bool" where
  "same_shape ds cur =
     (length cur = length ds
      \<and> (\<forall>j < length ds. i_id (cur ! j) = i_id (ds ! j) \<and> i_parent (cur ! j) = i_parent (ds ! j)
            \<and> i_value (cur ! j) = i_value (ds ! j)))"

definition rolled :: "roll_row list \<Rightarrow> nat \<Rightarrow> nat \<Rightarrow> string set" where
  "rolled ds i j = to_string ` {i_value (ds ! m) | m. m < i \<and> in_subtree ds j m}"

text \<open>
  What the loops keep true. \<open>rolled_upto ds i cur\<close>: the rows below \<open>i\<close> hold the
  roll-up of the rows below \<open>i\<close>. \<open>walk_inv ds i c cur\<close>: while the value of row \<open>i\<close>
  is carried upward and has reached row \<open>c\<close>, the rows up to \<open>i\<close> hold the roll-up of
  the rows below \<open>i\<close>, and the ancestors of \<open>i\<close> from \<open>c\<close> on hold the value of \<open>i\<close>
  as well.
\<close>

definition rolled_upto :: "roll_row list \<Rightarrow> nat \<Rightarrow> roll_row list \<Rightarrow> bool" where
  "rolled_upto ds i cur =
     (same_shape ds cur
      \<and> (\<forall>j < i. \<exists>xs. i_treeItems (cur ! j) = Some xs \<and> keys_of xs = rolled ds i j))"

definition walk_inv :: "roll_row list \<Rightarrow> nat \<Rightarrow> nat \<Rightarrow> roll_row list \<Rightarrow> bool" where
  "walk_inv ds i c cur =
     (same_shape ds cur
      \<and> (\<forall>j \<le> i. \<exists>xs. i_treeItems (cur ! j) = Some xs
            \<and> keys_of xs = rolled ds i j
                 \<union> (if in_subtree ds j i \<and> c \<le> j then {to_string (i_value (ds ! i))} else {})))"

text \<open>
  The child-first dataset after an earlier roll-up: every row already has a roll-up
  list, so nothing throws.
\<close>

definition stale_child_first_dataset :: "roll_row list" where
  "stale_child_first_dataset =
     [(roll_row_of 2 (ParentId 1))\<lparr>i_treeItems := Some [JNum 2]\<rparr>,
      (roll_row_of 1 ParentNull)\<lparr>i_treeItems := Some [JNum 1, JNum 2]\<rparr>]"

section \<open>Properties of the sort comparison engine\<close>

lemma sortComparer_directive_comparison:
  "sortComparer sbft fts sc r1 r2 None =
     (if directive_comparison sbft fts sc r1 r2 = 0 then None
      else Some (directive_comparison sbft fts sc r1 r2))"
  by (simp add: sortComparer_def directive_comparison_def SortDirectionNumber_neutral_def Let_def
           split: option.splits)

lemma sortComparers_loop_find:
  "sortComparers_loop sbft fts cols r1 r2 =
     (case List.find (\<lambda>c. directive_comparison sbft fts c r1 r2 \<noteq> 0) cols of
        None \<Rightarrow> 0
      | Some c \<Rightarrow> directive_comparison sbft fts c r1 r2)"
  by (induction cols)
     (simp_all add: sortComparer_directive_comparison SortDirectionNumber_neutral_def)

text \<open>
  Claim C4, as amended. When the column of a directive has a custom comparator and that
  comparator returns a non-neutral result for the two resolved values and the direction
  of the directive, \<open>sortComparer\<close> returns exactly that result; \<open>sortComparers\<close>
  returns it whatever directives follow; and \<open>sortComparer\<close> applies no inversion of
  its own: the directive with the opposite direction gives the same result whenever the
  custom comparator does not depend on the direction it is handed.
\<close>

theorem custom_comparer_precedence:
  assumes col: "sortCol sc = Some columnDef"
    and cust: "col_sortComparer columnDef = Some custom"
    and v1: "value1 = row_value r1 (queryFieldName_of columnDef q r1)"
    and v2: "value2 = row_value r2 (queryFieldName_of columnDef q r2)"
    and nn: "custom value1 value2 (sortDirection_of sc) \<noteq> SortDirectionNumber_neutral"
  shows "sortComparer sbft fts sc r1 r2 q = Some (custom value1 value2 (sortDirection_of sc))
    \<and> (q = None \<longrightarrow>
         sortComparers sbft fts (Some (sc # rest)) r1 r2 = custom value1 value2 (sortDirection_of sc))
    \<and> ((\<forall>d. custom value1 value2 d = custom value1 value2 (sortDirection_of sc)) \<longrightarrow>
         sortComparer sbft fts (sc\<lparr>sortAsc := \<not> sortAsc sc\<rparr>) r1 r2 q
           = sortComparer sbft fts sc r1 r2 q)"
proof -
  have one: "sortComparer sbft fts sc r1 r2 q = Some (custom value1 value2 (sortDirection_of sc))"
    using col cust v1 v2 nn by (simp add: sortComparer_def Let_def)
  have two: "q = None \<Longrightarrow>
      sortComparers sbft fts (Some (sc # rest)) r1 r2 = custom value1 value2 (sortDirection_of sc)"
    using one by (simp add: sortComparers_def)
  have three: "sortComparer sbft fts (sc\<lparr>sortAsc := \<not> sortAsc sc\<rparr>) r1 r2 q
        = sortComparer sbft fts sc r1 r2 q"
    if indep: "\<forall>d. custom value1 value2 d = custom value1 value2 (sortDirection_of sc)"
  proof -
    have "custom value1 value2 (sortDirection_of (sc\<lparr>sortAsc := \<not> sortAsc sc\<rparr>))
        = custom value1 value2 (sortDirection_of sc)"
      using indep by blast
    then show ?thesis
      using col cust v1 v2 by (simp add: sortComparer_def Let_def)
  qed
  from one two three show ?thesis by blast
qed

text \<open>
  The theorem at the rows \<open>{a: 1}\<close> and \<open>{a: 2}\<close>, a column \<open>a\<close> with the
  direction-blind comparator, followed by a second directive.
\<close>

theorem custom_comparer_precedence_witness:
  "sortComparer numeric_sortByFieldType ()
       (sample_directive ''a'' True (Some direction_blind_comparer))
       [(''a'', JNum 1)] [(''a'', JNum 2)] None = Some (- 1)
   \<and> sortComparers numeric_sortByFieldType ()
       (Some [sample_directive ''a'' True (Some direction_blind_comparer),
              sample_directive ''b'' True None])
       [(''a'', JNum 1)] [(''a'', JNum 2)] = - 1
   \<and> sortComparer numeric_sortByFieldType ()
       (sample_directive ''a'' False (Some direction_blind_comparer))
       [(''a'', JNum 1)] [(''a'', JNum 2)] None = Some (- 1)"
proof -
  let ?sc = "sample_directive ''a'' True (Some direction_blind_comparer)"
  let ?col = "sample_column ''a'' (Some direction_blind_comparer)"
  have flip: "?sc\<lparr>sortAsc := \<not> sortAsc ?sc\<rparr>
      = sample_directive ''a'' False (Some direction_blind_comparer)"
    by (simp add: sample_directive_def)
  have col: "sortCol ?sc = Some ?col"
    by (simp add: sample_directive_def)
  have cust: "col_sortComparer ?col = Some direction_blind_comparer"
    by (simp add: sample_column_def)
  have v: "JNum 1 = row_value [(''a'', JNum 1)] (queryFieldName_of ?col None [(''a'', JNum 1)])"
    "JNum 2 = row_value [(''a'', JNum 2)] (queryFieldName_of ?col None [(''a'', JNum 2)])"
    by (simp_all add: sample_column_def row_value_def queryFieldName_of_def or_name_def)
  have nn: "direction_blind_comparer (JNum 1) (JNum 2) (sortDirection_of ?sc)
      \<noteq> SortDirectionNumber_neutral"
    by (simp add: direction_blind_comparer_def SortDirectionNumber_neutral_def)
  have indep: "\<forall>d. direction_blind_comparer (JNum 1) (JNum 2) d
      = direction_blind_comparer (JNum 1) (JNum 2) (sortDirection_of ?sc)"
    by (simp add: direction_blind_comparer_def)
  have val: "direction_blind_comparer (JNum 1) (JNum 2) (sortDirection_of ?sc) = - 1"
    by (simp add: direction_blind_comparer_def)
  show ?thesis
    using custom_comparer_precedence [OF col cust v nn, of numeric_sortByFieldType "()"
        "[sample_directive ''b'' True None]"] indep flip val
    by simp
qed

text \<open>
  Claim C4 as stated fails: the custom comparator is handed the direction, and with a
  comparator that accounts for it the ascending and the descending directive on the same
  two rows return results of opposite sign.
\<close>

theorem custom_comparer_direction_counterexample:
  "sortComparer numeric_sortByFieldType ()
       (sample_directive ''a'' True (Some direction_aware_comparer))
       [(''a'', JNum 1)] [(''a'', JNum 2)] None = Some (- 1)
   \<and> sortComparer numeric_sortByFieldType ()
       (sample_directive ''a'' False (Some direction_aware_comparer))
       [(''a'', JNum 1)] [(''a'', JNum 2)] None = Some 1"
  by (simp add: sortComparer_def sample_directive_def sample_column_def
      direction_aware_comparer_def row_value_def queryFieldName_of_def or_name_def
      sortDirection_of_def SortDirectionNumber_asc_def SortDirectionNumber_desc_def
      SortDirectionNumber_neutral_def)

text \<open>
  Claim C5. \<open>sortComparers\<close> returns the comparison of the first directive, in
  sequence order, whose comparison is not neutral: a neutral directive hands over to the
  rest of the sequence, a non-neutral one decides; when every directive is neutral, and
  for the empty sequence, the rows compare as equal (zero).
\<close>

theorem sortComparers_first_non_neutral:
  "sortComparers sbft fts (Some cols) r1 r2 =
     (case List.find (\<lambda>c. directive_comparison sbft fts c r1 r2 \<noteq> 0) cols of
        None \<Rightarrow> 0
      | Some c \<Rightarrow> directive_comparison sbft fts c r1 r2)
   \<and> (directive_comparison sbft fts c r1 r2 = 0 \<longrightarrow>
        sortComparers sbft fts (Some (c # cols)) r1 r2 = sortComparers sbft fts (Some cols) r1 r2)
   \<and> (directive_comparison sbft fts c r1 r2 \<noteq> 0 \<longrightarrow>
        sortComparers sbft fts (Some (c # cols)) r1 r2 = directive_comparison sbft fts c r1 r2)
   \<and> ((\<forall>c \<in> set cols. directive_comparison sbft fts c r1 r2 = 0) \<longrightarrow>
        sortComparers sbft fts (Some cols) r1 r2 = 0)
   \<and> sortComparers sbft fts (Some []) r1 r2 = 0"
proof -
  have all0: "(\<forall>c \<in> set cols. directive_comparison sbft fts c r1 r2 = 0) \<Longrightarrow>
      List.find (\<lambda>c. directive_comparison sbft fts c r1 r2 \<noteq> 0) cols = None"
    by (simp add: find_None_iff)
  show ?thesis
    using all0
    by (auto simp: sortComparers_def sortComparers_loop_find sortComparer_directive_comparison
        SortDirectionNumber_neutral_def)
qed

text \<open>
  The theorem at two rows that tie on column \<open>a\<close> and differ on column \<open>b\<close>, sorted by
  \<open>a\<close> ascending then \<open>b\<close> descending.
\<close>

theorem sortComparers_first_non_neutral_witness:
  "directive_comparison numeric_sortByFieldType () (sample_directive ''a'' True None)
       [(''a'', JNum 1), (''b'', JNum 5)] [(''a'', JNum 1), (''b'', JNum 7)] = 0
   \<and> directive_comparison numeric_sortByFieldType () (sample_directive ''b'' False None)
       [(''a'', JNum 1), (''b'', JNum 5)] [(''a'', JNum 1), (''b'', JNum 7)] = 1
   \<and> sortComparers numeric_sortByFieldType ()
       (Some [sample_directive ''a'' True None, sample_directive ''b'' False None])
       [(''a'', JNum 1), (''b'', JNum 5)] [(''a'', JNum 1), (''b'', JNum 7)] = 1
   \<and> sortComparers numeric_sortByFieldType ()
       (Some [sample_directive ''a'' True None])
       [(''a'', JNum 1), (''b'', JNum 5)] [(''a'', JNum 1), (''b'', JNum 7)] = 0"
  using sortComparers_first_non_neutral [of numeric_sortByFieldType "()"
      "[sample_directive ''b'' False None]"
      "[(''a'', JNum 1), (''b'', JNum 5)]" "[(''a'', JNum 1), (''b'', JNum 7)]"
      "sample_directive ''a'' True None"]
    sortComparers_first_non_neutral [of numeric_sortByFieldType "()"
      "[sample_directive ''a'' True None]"
      "[(''a'', JNum 1), (''b'', JNum 5)]" "[(''a'', JNum 1), (''b'', JNum 7)]"
      "sample_directive ''a'' True None"]
  by (simp add: directive_comparison_def sample_directive_def sample_column_def
      numeric_sortByFieldType_def row_value_def queryFieldName_of_def or_name_def
      sortDirection_of_def SortDirectionNumber_asc_def SortDirectionNumber_desc_def)

section \<open>Properties of \<open>updateSorting\<close>\<close>

text \<open>A service with no grid bound, and one whose grid has sorting switched on.\<close>

lemma gridOptions_of_no_grid:
  "svc_grid s = None \<Longrightarrow> enableSorting (gridOptions_of s) = None"
  by (simp add: gridOptions_of_def)

text \<open>
  Claim C8. When there is no grid to take the options from, or \<open>enableSorting\<close> is not
  set (or is false), \<open>updateSorting\<close> throws, whatever the sorters and the two flags,
  and the service is as it was before the call: the current local sorters are unchanged
  and nothing was done to a collaborator, so no sort-changed event was published.
\<close>

theorem updateSorting_not_enabled_throws:
  assumes "svc_grid s = None \<or> enableSorting (gridOptions_of s) = None
           \<or> enableSorting (gridOptions_of s) = Some False"
  shows "updateSorting sorters emitChangedEvent triggerBackendQuery s = (s, Thrown SortingNotEnabled)"
proof -
  have "enableSorting (gridOptions_of s) \<noteq> Some True"
    using assms gridOptions_of_no_grid [of s] by auto
  then show ?thesis
    by (simp add: updateSorting_def)
qed

text \<open>
  The theorem at a service without a grid and at a grid whose options leave
  \<open>enableSorting\<close> unset, for a descending sorter on column \<open>b\<close>.
\<close>

theorem updateSorting_not_enabled_throws_witness:
  "updateSorting (Some [\<lparr> cs_columnId = ''b'', cs_direction = ''desc'' \<rparr>]) True True
       unbound_service = (unbound_service, Thrown SortingNotEnabled)
   \<and> updateSorting (Some [\<lparr> cs_columnId = ''b'', cs_direction = ''desc'' \<rparr>]) True True
       (local_service None) = (local_service None, Thrown SortingNotEnabled)"
proof -
  have a: "svc_grid unbound_service = None"
    by (simp add: unbound_service_def)
  have b: "enableSorting (gridOptions_of (local_service None)) = None"
    by (simp add: local_service_def gridOptions_of_def)
  show ?thesis
    using updateSorting_not_enabled_throws [of unbound_service, OF disjI1, OF a]
      updateSorting_not_enabled_throws [of "local_service None", OF disjI2, OF disjI1, OF b]
    by simp
qed

text \<open>
  With sorting enabled the same call does change the service: it replaces the current
  local sorters and publishes the event.
\<close>

lemma toUpperCase_desc: "toUpperCase ''desc'' = ''DESC''"
  by code_simp

lemma updateSorting_enabled_example:
  "updateSorting (Some [\<lparr> cs_columnId = ''b'', cs_direction = ''desc'' \<rparr>]) True True
       (local_service (Some True))
   = ((local_service (Some True))
        \<lparr> svc_currentLocalSorters := [\<lparr> cs_columnId = ''b'', cs_direction = ''DESC'' \<rparr>],
          svc_effects :=
            [LocalSortChanged [\<lparr> columnId = ''b'', sortAsc = False,
                                 sortCol = Some (sample_column ''b'' None) \<rparr>],
             GridSetSortColumns [(''b'', False)],
             Publish ''onSortChanged'' [\<lparr> cs_columnId = ''b'', cs_direction = ''DESC'' \<rparr>]] \<rparr>,
      Returned)"
  by (simp add: updateSorting_def local_service_def gridOptions_of_def loadGridSorters_def
      loadGridSorters_step_def columnDefinitions_of_def log_effect_def emitSortChanged_def
      sample_column_def toUpperCase_desc)

section \<open>Properties of \<open>parseBoolean\<close> and \<open>dedupePrimitiveArray\<close>\<close>

text \<open>The inputs the documentation names are parsed as it says.\<close>

lemma parseBoolean_accepted:
  "parseBoolean (JStr ''true'') \<and> parseBoolean (JStr ''TRUE'') \<and> parseBoolean (JStr ''True'')
   \<and> parseBoolean (JStr ''1'') \<and> parseBoolean (JBool True) \<and> parseBoolean (JNum 1)
   \<and> \<not> parseBoolean (JNum 0) \<and> \<not> parseBoolean (JStr ''false'') \<and> \<not> parseBoolean (JBool False)
   \<and> \<not> parseBoolean JNull \<and> \<not> parseBoolean JUndefined \<and> \<not> parseBoolean (JStr ''abc'')"
  by (simp add: parseBoolean_def string_of_int_def digit_char_def)

text \<open>
  Claim C7 on the code: the pattern is searched anywhere in the string form of the
  input, so the number 10, the number 21 and the strings \<open>untrue\<close> and \<open>false1\<close> are
  all parsed as true, where the claim (and the documentation: false when the input
  cannot be parsed as a boolean) asks for false.
\<close>

theorem parseBoolean_unanchored:
  "parseBoolean (JNum 10) \<and> parseBoolean (JNum 21) \<and> parseBoolean (JStr ''10'')
   \<and> parseBoolean (JStr ''untrue'') \<and> parseBoolean (JStr ''false1'')"
  by (simp add: parseBoolean_def string_of_int_def digit_char_def)

text \<open>
  Claim C10 on the code: the string \<open>__proto__\<close> is never recorded in \<open>seen\<close>, so every
  occurrence of it is kept and the output holds two elements with the same string form.
\<close>

theorem dedupePrimitiveArray_proto_kept_twice:
  "dedupePrimitiveArray [JStr ''__proto__'', JNum 1, JStr ''__proto__'']
     = [JStr ''__proto__'', JNum 1, JStr ''__proto__'']"
  by (simp add: dedupePrimitiveArray_def seen_is_1_def seen_set_1_def string_of_int_def
      digit_char_def)

text \<open>
  Apart from that key the deduplication does what its name says: when no element has the
  string form \<open>__proto__\<close>, no two elements of the output have the same string form,
  and the output has the string forms of the input.
\<close>

lemma dedupe_loop_distinct:
  assumes "\<forall>x \<in> set xs. to_string x \<noteq> ''__proto__''"
    and "set seen = keys_of out" and "distinct (map to_string out)"
  shows "distinct (map to_string (dedupe_loop seen out xs))"
  using assms
proof (induction xs arbitrary: seen out)
  case Nil
  then show ?case by simp
next
  case (Cons item rest)
  from Cons.prems(1) have np: "to_string item \<noteq> ''__proto__''"
    and rest: "\<forall>x \<in> set rest. to_string x \<noteq> ''__proto__''" by simp_all
  show ?case
  proof (cases "seen_is_1 seen (to_string item)")
    case True
    with Cons.IH [OF rest Cons.prems(2,3)] show ?thesis by simp
  next
    case False
    with np have new: "to_string item \<notin> keys_of out"
      using Cons.prems(2) by (simp add: seen_is_1_def)
    have s: "set (seen_set_1 seen (to_string item)) = keys_of (out @ [item])"
      using np Cons.prems(2) by (auto simp: seen_set_1_def keys_of_def)
    have d: "distinct (map to_string (out @ [item]))"
      using new Cons.prems(3) by (simp add: keys_of_def)
    from Cons.IH [OF rest s d] False show ?thesis by simp
  qed
qed

lemma dedupe_distinct_without_proto:
  assumes "\<forall>x \<in> set xs. to_string x \<noteq> ''__proto__''"
  shows "distinct (map to_string (dedupePrimitiveArray xs))"
  unfolding dedupePrimitiveArray_def
  using assms by (rule dedupe_loop_distinct) (simp_all add: keys_of_def)

section \<open>Properties of the deep copy\<close>

text \<open>One store extends another: the old objects are where they were, unchanged.\<close>

lemma extends_refl: "extends h h"
  by (simp add: extends_def)

lemma extends_trans: "extends h h1 \<Longrightarrow> extends h1 h2 \<Longrightarrow> extends h h2"
  by (auto simp: extends_def)

lemma extends_snoc: "extends h h1 \<Longrightarrow> extends h (h1 @ [x])"
  by (auto simp: extends_def)

lemma extends_nth: "extends h h' \<Longrightarrow> a < length h \<Longrightarrow> h' ! a = h ! a"
  by (auto simp: extends_def nth_append)

lemma extends_length: "extends h h' \<Longrightarrow> length h \<le> length h'"
  by (auto simp: extends_def)

lemma extends_take: "extends h h' \<Longrightarrow> take (length h) h' = h"
  by (auto simp: extends_def)

lemma extend_extends:
  "extend_obj n h a = Some (a', h') \<Longrightarrow> extends h h'"
  "extend_array n h as = Some (as', h') \<Longrightarrow> extends h h' \<and> length as' = length as"
proof (induction n h a and n h as arbitrary: a' h' and as' h' rule: extend_obj_extend_array.induct)
  case (1 h a)
  then show ?case by simp
next
  case (2 n h a)
  show ?case
  proof (cases "h_plain (h ! a)")
    case False
    with 2(2) show ?thesis by (simp add: extends_refl)
  next
    case True
    show ?thesis
    proof (cases "h_children (h ! a)")
      case None
      with 2(2) True show ?thesis by (auto simp: extends_def)
    next
      case (Some cs)
      with 2(2) True obtain cs' h1 where ea: "extend_array n h cs = Some (cs', h1)"
        and res: "h' = h1 @ [(h ! a)\<lparr>h_children := Some cs'\<rparr>]"
        by (auto split: option.splits)
      from 2(1) [OF _ Some ea] True have "extends h h1" by simp
      then show ?thesis
        unfolding res by (rule extends_snoc)
    qed
  qed
next
  case (3 n h)
  then show ?case by (simp add: extends_refl)
next
  case (4 n h c cs)
  from 4(3) obtain c' h1 cs' where eo: "extend_obj n h c = Some (c', h1)"
    and ea: "extend_array n h1 cs = Some (cs', h')" and res: "as' = c' # cs'"
    by (auto split: option.splits)
  from 4(1) [OF eo] have f1: "extends h h1" .
  from 4(2) [OF eo refl ea] have f2: "extends h1 h'" "length cs' = length cs" by simp_all
  from f1 f2(1) have "extends h h'" by (rule extends_trans)
  with f2(2) res show ?case by simp
qed

text \<open>
  What the deep copy returns for one object: an object of the returned store with the
  same row, without children when the object has none; a fresh object when the object
  is plain, and the object itself, in the same store, when it is not.
\<close>

lemma extend_obj_facts:
  assumes eo: "extend_obj n h a = Some (a', h')"
  shows "h_row (h' ! a') = h_row (h ! a)"
    and "h_children (h ! a) = None \<Longrightarrow> h_children (h' ! a') = None"
    and "a < length h \<Longrightarrow> a' < length h'"
    and "h_plain (h ! a) \<Longrightarrow> length h \<le> a' \<and> a' < length h'"
    and "\<not> h_plain (h ! a) \<Longrightarrow> a' = a \<and> h' = h"
proof -
  from eo obtain m where n: "n = Suc m" by (cases n) simp_all
  have all: "h_row (h' ! a') = h_row (h ! a)
      \<and> (h_children (h ! a) = None \<longrightarrow> h_children (h' ! a') = None)
      \<and> (a < length h \<longrightarrow> a' < length h')
      \<and> (h_plain (h ! a) \<longrightarrow> length h \<le> a' \<and> a' < length h')
      \<and> (\<not> h_plain (h ! a) \<longrightarrow> a' = a \<and> h' = h)"
  proof (cases "h_plain (h ! a)")
    case False
    with eo n show ?thesis by simp
  next
    case True
    show ?thesis
    proof (cases "h_children (h ! a)")
      case None
      with eo n True show ?thesis by auto
    next
      case (Some cs)
      with eo n True obtain cs' h1 where ea: "extend_array m h cs = Some (cs', h1)"
        and res: "a' = length h1" "h' = h1 @ [(h ! a)\<lparr>h_children := Some cs'\<rparr>]"
        by (auto split: option.splits)
      from extend_extends(2) [OF ea] have "length h \<le> length h1"
        by (simp add: extends_length)
      with res Some True show ?thesis by simp
    qed
  qed
  from all show "h_row (h' ! a') = h_row (h ! a)" by simp
  from all show "h_children (h ! a) = None \<Longrightarrow> h_children (h' ! a') = None" by simp
  from all show "a < length h \<Longrightarrow> a' < length h'" by simp
  from all show "h_plain (h ! a) \<Longrightarrow> length h \<le> a' \<and> a' < length h'" by simp
  from all show "\<not> h_plain (h ! a) \<Longrightarrow> a' = a \<and> h' = h" by simp
qed

lemma extend_array_Cons:
  assumes "extend_array n h (c # cs) = Some (as', h')"
  obtains c' h1 cs' where "extend_obj n h c = Some (c', h1)"
    and "extend_array n h1 cs = Some (cs', h')" and "as' = c' # cs'"
  using assms by (auto split: option.splits)

lemma extend_array_valid:
  "extend_array n h as = Some (as', h') \<Longrightarrow> \<forall>a \<in> set as. a < length h \<Longrightarrow>
     \<forall>x \<in> set as'. x < length h'"
proof (induction as arbitrary: h as')
  case Nil
  then show ?case by simp
next
  case (Cons c cs)
  from Cons.prems(1) obtain c' h1 cs' where eo: "extend_obj n h c = Some (c', h1)"
    and ea: "extend_array n h1 cs = Some (cs', h')" and res: "as' = c' # cs'"
    by (rule extend_array_Cons)
  have e1: "extends h h1" using eo by (rule extend_extends(1))
  have e2: "extends h1 h'" using extend_extends(2) [OF ea] by simp
  have "c' < length h1" using extend_obj_facts(3) [OF eo] Cons.prems(2) by simp
  then have c': "c' < length h'" using extends_length [OF e2] by simp
  have "\<forall>a \<in> set cs. a < length h1"
    using Cons.prems(2) extends_length [OF e1] by auto
  from Cons.IH [OF ea this] c' res show ?case by simp
qed

lemma extend_array_fresh:
  "extend_array n h as = Some (as', h') \<Longrightarrow> \<forall>a \<in> set as. a < length h \<and> h_plain (h ! a) \<Longrightarrow>
     \<forall>x \<in> set as'. length h \<le> x \<and> x < length h'"
proof (induction as arbitrary: h as')
  case Nil
  then show ?case by simp
next
  case (Cons c cs)
  from Cons.prems(1) obtain c' h1 cs' where eo: "extend_obj n h c = Some (c', h1)"
    and ea: "extend_array n h1 cs = Some (cs', h')" and res: "as' = c' # cs'"
    by (rule extend_array_Cons)
  have e1: "extends h h1" using eo by (rule extend_extends(1))
  have e2: "extends h1 h'" using extend_extends(2) [OF ea] by simp
  have "length h \<le> c' \<and> c' < length h1"
    using extend_obj_facts(4) [OF eo] Cons.prems(2) by simp
  then have c': "length h \<le> c' \<and> c' < length h'" using extends_length [OF e2] by simp
  have "\<forall>a \<in> set cs. a < length h1 \<and> h_plain (h1 ! a)"
  proof
    fix a
    assume "a \<in> set cs"
    with Cons.prems(2) have a: "a < length h" "h_plain (h ! a)" by simp_all
    from e1 a(1) have "h1 ! a = h ! a" by (rule extends_nth)
    with a extends_length [OF e1] show "a < length h1 \<and> h_plain (h1 ! a)" by simp
  qed
  from Cons.IH [OF ea this] have "\<forall>x \<in> set cs'. length h1 \<le> x \<and> x < length h'" .
  with extends_length [OF e1] have "\<forall>x \<in> set cs'. length h \<le> x \<and> x < length h'" by auto
  with c' res show ?case by simp
qed

lemma extend_array_rows:
  "extend_array n h as = Some (as', h') \<Longrightarrow> \<forall>a \<in> set as. a < length h \<Longrightarrow>
     map (\<lambda>a. h_row (h' ! a)) as' = map (\<lambda>a. h_row (h ! a)) as
     \<and> ((\<forall>a \<in> set as. h_children (h ! a) = None) \<longrightarrow> (\<forall>a \<in> set as'. h_children (h' ! a) = None))"
proof (induction as arbitrary: h as')
  case Nil
  then show ?case by simp
next
  case (Cons c cs)
  from Cons.prems(1) obtain c' h1 cs' where eo: "extend_obj n h c = Some (c', h1)"
    and ea: "extend_array n h1 cs = Some (cs', h')" and res: "as' = c' # cs'"
    by (rule extend_array_Cons)
  have e1: "extends h h1" using eo by (rule extend_extends(1))
  have e2: "extends h1 h'" using extend_extends(2) [OF ea] by simp
  have c'_len: "c' < length h1" using extend_obj_facts(3) [OF eo] Cons.prems(2) by simp
  have valid1: "\<forall>a \<in> set cs. a < length h1"
    using Cons.prems(2) extends_length [OF e1] by auto
  have same: "\<forall>a \<in> set cs. h1 ! a = h ! a"
    using Cons.prems(2) e1 by (auto simp: extends_nth)
  have c'_same: "h' ! c' = h1 ! c'"
    using e2 c'_len by (rule extends_nth)
  from Cons.IH [OF ea valid1]
  have ih: "map (\<lambda>a. h_row (h' ! a)) cs' = map (\<lambda>a. h_row (h1 ! a)) cs"
    "(\<forall>a \<in> set cs. h_children (h1 ! a) = None) \<longrightarrow> (\<forall>a \<in> set cs'. h_children (h' ! a) = None)"
    by simp_all
  have "map (\<lambda>a. h_row (h1 ! a)) cs = map (\<lambda>a. h_row (h ! a)) cs"
    using same by simp
  then show ?case
    using ih res c'_same extend_obj_facts(1,2) [OF eo] same by auto
qed

text \<open>The deep copy of rows without children returns, whatever the rows are.\<close>

lemma extend_array_total:
  "\<forall>a \<in> set as. a < length h \<and> h_children (h ! a) = None \<Longrightarrow>
     \<exists>as' h'. extend_array (Suc n) h as = Some (as', h')"
proof (induction as arbitrary: h)
  case Nil
  then show ?case by simp
next
  case (Cons c cs)
  obtain c' h1 where eo: "extend_obj (Suc n) h c = Some (c', h1)"
    and h1: "h1 = h \<or> h1 = h @ [h ! c]"
    using Cons.prems by (cases "h_plain (h ! c)") simp_all
  have "\<forall>a \<in> set cs. a < length h1 \<and> h_children (h1 ! a) = None"
    using Cons.prems h1 by (auto simp: nth_append)
  from Cons.IH [OF this] obtain as' h' where "extend_array (Suc n) h1 cs = Some (as', h')"
    by blast
  then show ?case
    using eo by simp
qed

text \<open>
  Plain objects to every depth, and a copy that ends within the fuel: both properties
  hold in a larger store, the second follows from the first, and the deep copy returns
  when it holds. The objects that the deep copy of plain objects allocates refer, in
  their children, only to objects it allocated.
\<close>

lemma plain_tree_extends:
  "plain_tree n h a \<Longrightarrow> extends h h1 \<Longrightarrow> plain_tree n h1 a"
  "plain_trees n h as \<Longrightarrow> extends h h1 \<Longrightarrow> plain_trees n h1 as"
proof (induction n h a and n h as rule: plain_tree_plain_trees.induct)
  case (1 h a)
  then show ?case by simp
next
  case (2 n h a)
  from 2(2) have a: "a < length h" "h_plain (h ! a)" by simp_all
  from 2(3) a(1) have same: "h1 ! a = h ! a" by (rule extends_nth)
  have len: "a < length h1" using a(1) extends_length [OF 2(3)] by simp
  show ?case
  proof (cases "h_children (h ! a)")
    case None
    with a same len show ?thesis by simp
  next
    case (Some cs)
    with 2(2) have "plain_trees n h cs" by simp
    from 2(1) [OF Some this 2(3)] have "plain_trees n h1 cs" .
    with a same len Some show ?thesis by simp
  qed
next
  case (3 n h)
  then show ?case by simp
next
  case (4 n h c cs)
  from 4(3) have c: "plain_tree n h c" and cs: "plain_trees n h cs" by simp_all
  from 4(1) [OF c 4(4)] 4(2) [OF cs 4(4)] show ?case by simp
qed

lemma plain_trees_top:
  "plain_trees n h as \<Longrightarrow> \<forall>a \<in> set as. a < length h \<and> h_plain (h ! a)"
proof (induction as)
  case Nil
  then show ?case by simp
next
  case (Cons c cs)
  from Cons.prems have c: "plain_tree n h c" and cs: "plain_trees n h cs" by simp_all
  from c have "c < length h \<and> h_plain (h ! c)" by (cases n) simp_all
  with Cons.IH [OF cs] show ?case by simp
qed

lemma copy_ends_extends:
  "copy_ends n h a \<Longrightarrow> extends h h1 \<Longrightarrow> copy_ends n h1 a"
  "copies_end n h as \<Longrightarrow> extends h h1 \<Longrightarrow> copies_end n h1 as"
proof (induction n h a and n h as rule: copy_ends_copies_end.induct)
  case (1 h a)
  then show ?case by simp
next
  case (2 n h a)
  from 2(2) have a: "a < length h" by simp
  from 2(3) a have same: "h1 ! a = h ! a" by (rule extends_nth)
  have len: "a < length h1" using a extends_length [OF 2(3)] by simp
  show ?case
  proof (cases "h_plain (h ! a)")
    case False
    with same len show ?thesis by simp
  next
    case True
    show ?thesis
    proof (cases "h_children (h ! a)")
      case None
      with same len show ?thesis by simp
    next
      case (Some cs)
      with 2(2) True have "copies_end n h cs" by simp
      from 2(1) [OF _ Some this 2(3)] True have "copies_end n h1 cs" by simp
      with same len Some show ?thesis by simp
    qed
  qed
next
  case (3 n h)
  then show ?case by simp
next
  case (4 n h c cs)
  from 4(3) have c: "copy_ends n h c" and cs: "copies_end n h cs" by simp_all
  from 4(1) [OF c 4(4)] 4(2) [OF cs 4(4)] show ?case by simp
qed

lemma extend_ends_total:
  "copy_ends n h a \<Longrightarrow> \<exists>a' h'. extend_obj n h a = Some (a', h')"
  "copies_end n h as \<Longrightarrow> \<exists>as' h'. extend_array n h as = Some (as', h')"
proof (induction n h a and n h as rule: extend_obj_extend_array.induct)
  case (1 h a)
  then show ?case by simp
next
  case (2 n h a)
  show ?case
  proof (cases "h_plain (h ! a)")
    case False
    then show ?thesis by simp
  next
    case True
    show ?thesis
    proof (cases "h_children (h ! a)")
      case None
      with True show ?thesis by simp
    next
      case (Some cs)
      with 2(2) True have "copies_end n h cs" by simp
      from 2(1) [OF _ Some this] True obtain cs' h1 where "extend_array n h cs = Some (cs', h1)"
        by auto
      with True Some show ?thesis by simp
    qed
  qed
next
  case (3 n h)
  then show ?case by simp
next
  case (4 n h c cs)
  from 4(3) have c: "copy_ends n h c" and cs: "copies_end n h cs" by simp_all
  from 4(1) [OF c] obtain c' h1 where eo: "extend_obj n h c = Some (c', h1)" by blast
  from eo have "extends h h1" by (rule extend_extends(1))
  with cs have "copies_end n h1 cs" by (rule copy_ends_extends(2))
  from 4(2) [OF eo refl this] obtain cs' h2 where "extend_array n h1 cs = Some (cs', h2)"
    by blast
  with eo show ?case by simp
qed

lemma plain_tree_ends:
  "plain_tree n h a \<Longrightarrow> copy_ends n h a"
  "plain_trees n h as \<Longrightarrow> copies_end n h as"
proof (induction n h a and n h as rule: plain_tree_plain_trees.induct)
  case (1 h a)
  then show ?case by simp
next
  case (2 n h a)
  show ?case
  proof (cases "h_children (h ! a)")
    case None
    with 2(2) show ?thesis by simp
  next
    case (Some cs)
    with 2(2) have "plain_trees n h cs" by simp
    from 2(1) [OF Some this] have "copies_end n h cs" .
    with 2(2) Some show ?thesis by simp
  qed
next
  case (3 n h)
  then show ?case by simp
next
  case (4 n h c cs)
  then show ?case by simp
qed

lemma fresh_closed_snoc:
  assumes closed: "fresh_closed L h"
    and obj: "\<And>cs c. h_children obj = Some cs \<Longrightarrow> c \<in> set cs \<Longrightarrow> L \<le> c \<and> c < length h"
  shows "fresh_closed L (h @ [obj])"
  unfolding fresh_closed_def
proof (intro allI impI ballI)
  fix a cs c
  assume a: "L \<le> a \<and> a < length (h @ [obj]) \<and> h_children ((h @ [obj]) ! a) = Some cs"
    and c: "c \<in> set cs"
  have "L \<le> c \<and> c < length h"
  proof (cases "a < length h")
    case True
    with a have "h_children (h ! a) = Some cs" by (simp add: nth_append)
    with a True have "L \<le> a \<and> a < length h \<and> h_children (h ! a) = Some cs" by simp
    from closed [unfolded fresh_closed_def, rule_format, OF this c] show ?thesis .
  next
    case False
    with a have "a = length h" by simp
    with a have "h_children obj = Some cs" by simp
    from obj [OF this c] show ?thesis .
  qed
  then show "L \<le> c \<and> c < length (h @ [obj])" by simp
qed

lemma extend_fresh_closed:
  "extend_obj n h a = Some (a', h') \<Longrightarrow> plain_tree n h a \<Longrightarrow> L \<le> length h
     \<Longrightarrow> fresh_closed L h \<Longrightarrow> fresh_closed L h'"
  "extend_array n h as = Some (as', h') \<Longrightarrow> plain_trees n h as \<Longrightarrow> L \<le> length h
     \<Longrightarrow> fresh_closed L h \<Longrightarrow> fresh_closed L h'"
proof (induction n h a and n h as arbitrary: a' h' and as' h' rule: extend_obj_extend_array.induct)
  case (1 h a)
  then show ?case by simp
next
  case (2 n h a)
  from 2(3) have pl: "h_plain (h ! a)" by simp
  show ?case
  proof (cases "h_children (h ! a)")
    case None
    with 2(2) pl have res: "h' = h @ [h ! a]" by simp
    show ?thesis
      unfolding res
    proof (rule fresh_closed_snoc [OF 2(5)])
      fix cs c
      assume "h_children (h ! a) = Some cs"
      with None show "L \<le> c \<and> c < length h" by simp
    qed
  next
    case (Some cs)
    with 2(2) pl obtain cs' h1 where ea: "extend_array n h cs = Some (cs', h1)"
      and res: "h' = h1 @ [(h ! a)\<lparr>h_children := Some cs'\<rparr>]"
      by (auto split: option.splits)
    from 2(3) Some have pcs: "plain_trees n h cs" by simp
    have npl: "\<not> \<not> h_plain (h ! a)" using pl by simp
    from 2(1) [OF npl Some ea pcs 2(4) 2(5)] have c1: "fresh_closed L h1" .
    from extend_array_fresh [OF ea plain_trees_top [OF pcs]]
    have "\<forall>x \<in> set cs'. length h \<le> x \<and> x < length h1" .
    with 2(4) have fresh: "\<forall>c \<in> set cs'. L \<le> c \<and> c < length h1" by auto
    show ?thesis
      unfolding res
    proof (rule fresh_closed_snoc [OF c1])
      fix ds c
      assume "h_children ((h ! a)\<lparr>h_children := Some cs'\<rparr>) = Some ds" and "c \<in> set ds"
      then have "c \<in> set cs'" by simp
      with fresh show "L \<le> c \<and> c < length h1" by blast
    qed
  qed
next
  case (3 n h)
  then show ?case by simp
next
  case (4 n h c cs)
  from 4(3) obtain c' h1 cs' where eo: "extend_obj n h c = Some (c', h1)"
    and ea: "extend_array n h1 cs = Some (cs', h')"
    by (rule extend_array_Cons)
  from 4(4) have pc: "plain_tree n h c" and pcs: "plain_trees n h cs" by simp_all
  from 4(1) [OF eo pc 4(5) 4(6)] have c1: "fresh_closed L h1" .
  have e1: "extends h h1" using eo by (rule extend_extends(1))
  have l1: "L \<le> length h1" using extends_length [OF e1] 4(5) by simp
  from pcs e1 have pcs1: "plain_trees n h1 cs" by (rule plain_tree_extends(2))
  from 4(2) [OF eo refl ea pcs1 l1 c1] show ?case .
qed

section \<open>Properties of the lookup and of the connecting loop\<close>

lemma all_ok_upd: "all_ok h S m \<Longrightarrow> a \<in> S \<Longrightarrow> all_ok h S (m(r_id (h_row (h ! a)) \<mapsto> a))"
  by (simp add: all_ok_def)

lemma all_ok_foldl:
  "all_ok h S m \<Longrightarrow> set as \<subseteq> S \<Longrightarrow>
     all_ok h S (foldl (\<lambda>m a. m(r_id (h_row (h ! a)) \<mapsto> a)) m as)"
proof (induction as arbitrary: m)
  case Nil
  then show ?case by simp
next
  case (Cons a as)
  from Cons.prems have "all_ok h S (m(r_id (h_row (h ! a)) \<mapsto> a))"
    by (simp add: all_ok_upd)
  from Cons.IH [OF this] Cons.prems(2) show ?case by simp
qed

lemma build_all_Some:
  "build_all h as k = Some a \<Longrightarrow> a \<in> set as \<and> r_id (h_row (h ! a)) = k"
proof -
  have "all_ok h (set as) Map.empty" by (simp add: all_ok_def)
  then have "all_ok h (set as) (build_all h as)"
    unfolding build_all_def by (rule all_ok_foldl) simp
  then show "build_all h as k = Some a \<Longrightarrow> a \<in> set as \<and> r_id (h_row (h ! a)) = k"
    by (simp add: all_ok_def)
qed

lemma ran_build_all: "ran (build_all h as) \<subseteq> set as"
  by (auto simp: ran_def dest: build_all_Some)

lemma dom_foldl_upd:
  "dom (foldl (\<lambda>m a. m(f a \<mapsto> a)) m as) = dom m \<union> f ` set as"
  by (induction as arbitrary: m) auto

lemma dom_build_all: "dom (build_all h as) = (\<lambda>a. r_id (h_row (h ! a))) ` set as"
  by (simp add: build_all_def dom_foldl_upd)

lemma in_ran: "m k = Some a \<Longrightarrow> a \<in> ran m"
  by (auto simp: ran_def)

text \<open>The four ways the loop body can go.\<close>

lemma connect_cases:
  obtains (skip) "all key = None" "connect all (roots, h) key = (roots, h)"
  | (root) a where "all key = Some a" "parentless (h_row (h ! a))"
      "connect all (roots, h) key = (roots @ [a], delete_bookkeeping a h)"
  | (dangling) a parent where "all key = Some a" "r_parent (h_row (h ! a)) = ParentId parent"
      "all parent = None" "connect all (roots, h) key = (roots, delete_bookkeeping a h)"
  | (child) a parent p where "all key = Some a" "r_parent (h_row (h ! a)) = ParentId parent"
      "all parent = Some p"
      "connect all (roots, h) key = (roots, delete_bookkeeping a (push_child p a h))"
proof (cases "all key")
  case None
  then show ?thesis using skip by (simp add: connect_def)
next
  case (Some a)
  show ?thesis
  proof (cases "r_parent (h_row (h ! a))")
    case ParentAbsent
    then show ?thesis using root [of a] Some by (simp add: connect_def parentless_def)
  next
    case ParentNull
    then show ?thesis using root [of a] Some by (simp add: connect_def parentless_def)
  next
    case (ParentId parent)
    show ?thesis
    proof (cases "all parent")
      case None
      then show ?thesis using dangling [of a parent] Some ParentId by (simp add: connect_def)
    next
      case (Some p)
      then show ?thesis
        using child [of a parent p] \<open>all key = Some a\<close> ParentId by (simp add: connect_def)
    qed
  qed
qed

lemma conn_inv_update:
  assumes inv: "conn_inv all h1 (rs, hh)" and a: "a \<in> ran all" "a < length h1"
    and same: "r_id (h_row obj) = r_id (h_row (hh ! a))"
              "r_parent (h_row obj) = r_parent (h_row (hh ! a))"
  shows "conn_inv all h1 (rs, hh[a := obj])"
proof -
  from inv have len: "length hh = length h1" by (simp add: conn_inv_def)
  have n: "hh[a := obj] ! b = (if b = a then obj else hh ! b)" for b
    using a len by (simp add: nth_list_update)
  have 1: "length (hh[a := obj]) = length h1" using len by simp
  have 2: "r_id (h_row (hh[a := obj] ! b)) = r_id (h_row (h1 ! b))" for b
    using inv same(1) by (simp add: n conn_inv_def)
  have 3: "r_parent (h_row (hh[a := obj] ! b)) = r_parent (h_row (h1 ! b))" for b
    using inv same(2) by (simp add: n conn_inv_def)
  have 4: "b \<notin> ran all \<Longrightarrow> hh[a := obj] ! b = h1 ! b" for b
    using inv a(1) by (auto simp: n conn_inv_def)
  have 5: "\<forall>r \<in> set rs. r \<in> ran all \<and> parentless (h_row (h1 ! r))"
    using inv by (simp add: conn_inv_def)
  show ?thesis
    unfolding conn_inv_def fst_conv snd_conv using 1 2 3 4 5 by blast
qed

lemma conn_inv_root:
  assumes inv: "conn_inv all h1 (rs, hh)" and a: "a \<in> ran all"
    and p: "parentless (h_row (hh ! a))"
  shows "conn_inv all h1 (rs @ [a], hh)"
proof -
  from inv have "r_parent (h_row (hh ! a)) = r_parent (h_row (h1 ! a))"
    by (simp add: conn_inv_def)
  with p have "parentless (h_row (h1 ! a))" by (simp add: parentless_def)
  with inv a show ?thesis by (simp add: conn_inv_def)
qed

lemma conn_inv_delete:
  "conn_inv all h1 (rs, hh) \<Longrightarrow> a \<in> ran all \<Longrightarrow> a < length h1
     \<Longrightarrow> conn_inv all h1 (rs, delete_bookkeeping a hh)"
  unfolding delete_bookkeeping_def by (rule conn_inv_update) simp_all

lemma conn_inv_push:
  "conn_inv all h1 (rs, hh) \<Longrightarrow> p \<in> ran all \<Longrightarrow> p < length h1
     \<Longrightarrow> conn_inv all h1 (rs, push_child p a hh)"
  unfolding push_child_def by (rule conn_inv_update) simp_all

lemma connect_inv:
  assumes inv: "conn_inv all h1 acc" and bound: "\<forall>a \<in> ran all. a < length h1"
  shows "conn_inv all h1 (connect all acc key)"
proof -
  obtain roots h where acc: "acc = (roots, h)" by (cases acc)
  have inv': "conn_inv all h1 (roots, h)" using inv acc by simp
  show ?thesis
  proof (cases rule: connect_cases [of all key roots h])
    case skip
    then show ?thesis using inv' acc by simp
  next
    case (root a)
    then have "a \<in> ran all" "a < length h1" using bound by (auto intro: in_ran)
    then show ?thesis
      using root inv' acc by (simp add: conn_inv_delete conn_inv_root)
  next
    case (dangling a parent)
    then have "a \<in> ran all" "a < length h1" using bound by (auto intro: in_ran)
    then show ?thesis
      using dangling inv' acc by (simp add: conn_inv_delete)
  next
    case (child a parent p)
    then have "a \<in> ran all" "a < length h1" "p \<in> ran all" "p < length h1"
      using bound by (auto intro: in_ran)
    then show ?thesis
      using child inv' acc by (simp add: conn_inv_delete conn_inv_push)
  qed
qed

lemma foldl_connect_inv:
  "conn_inv all h1 acc \<Longrightarrow> \<forall>a \<in> ran all. a < length h1 \<Longrightarrow>
     conn_inv all h1 (foldl (connect all) acc keys)"
  by (induction keys arbitrary: acc) (simp_all add: connect_inv)

lemma conn_inv_init: "conn_inv all h1 ([], h1)"
  by (simp add: conn_inv_def)

lemma fresh_closed_update:
  assumes closed: "fresh_closed L h"
    and obj: "\<And>cs c. h_children obj = Some cs \<Longrightarrow> c \<in> set cs \<Longrightarrow> L \<le> c \<and> c < length h"
  shows "fresh_closed L (h[p := obj])"
  unfolding fresh_closed_def
proof (intro allI impI ballI)
  fix a cs c
  assume a: "L \<le> a \<and> a < length (h[p := obj]) \<and> h_children (h[p := obj] ! a) = Some cs"
    and c: "c \<in> set cs"
  have "L \<le> c \<and> c < length h"
  proof (cases "a = p")
    case True
    with a have "p < length h" by simp
    with a True have "h_children obj = Some cs" by simp
    from obj [OF this c] show ?thesis .
  next
    case False
    with a have "L \<le> a \<and> a < length h \<and> h_children (h ! a) = Some cs" by simp
    from closed [unfolded fresh_closed_def, rule_format, OF this c] show ?thesis .
  qed
  then show "L \<le> c \<and> c < length (h[p := obj])" by simp
qed

lemma fresh_closed_delete:
  assumes closed: "fresh_closed L h" and a: "L \<le> a" "a < length h"
  shows "fresh_closed L (delete_bookkeeping a h)"
  unfolding delete_bookkeeping_def
proof (rule fresh_closed_update [OF closed])
  fix cs c
  assume "h_children ((h ! a)\<lparr>h_row := (h_row (h ! a))\<lparr>r_treeLevel := None, r_hasChildren := None\<rparr>\<rparr>)
      = Some cs" and c: "c \<in> set cs"
  then have "L \<le> a \<and> a < length h \<and> h_children (h ! a) = Some cs" using a by simp
  from closed [unfolded fresh_closed_def, rule_format, OF this c]
  show "L \<le> c \<and> c < length h" .
qed

lemma fresh_closed_push:
  assumes closed: "fresh_closed L h" and p: "L \<le> p" "p < length h" and a: "L \<le> a" "a < length h"
  shows "fresh_closed L (push_child p a h)"
  unfolding push_child_def
proof (rule fresh_closed_update [OF closed])
  fix cs c
  assume ch: "h_children ((h ! p)\<lparr>h_children :=
        Some ((case h_children (h ! p) of None \<Rightarrow> [] | Some cs \<Rightarrow> cs) @ [a])\<rparr>) = Some cs"
    and c: "c \<in> set cs"
  show "L \<le> c \<and> c < length h"
  proof (cases "h_children (h ! p)")
    case None
    with ch c have "c = a" by auto
    with a show ?thesis by simp
  next
    case (Some ds)
    with ch c have "c = a \<or> c \<in> set ds" by auto
    then show ?thesis
    proof
      assume "c = a"
      with a show ?thesis by simp
    next
      assume cd: "c \<in> set ds"
      from p Some have "L \<le> p \<and> p < length h \<and> h_children (h ! p) = Some ds" by simp
      from closed [unfolded fresh_closed_def, rule_format, OF this cd] show ?thesis .
    qed
  qed
qed

lemma length_delete_bookkeeping [simp]: "length (delete_bookkeeping a h) = length h"
  by (simp add: delete_bookkeeping_def)

lemma length_push_child [simp]: "length (push_child p a h) = length h"
  by (simp add: push_child_def)

lemma connect_closed:
  assumes closed: "fresh_closed L (snd acc)"
    and bound: "\<forall>a \<in> ran all. L \<le> a \<and> a < length (snd acc)"
  shows "fresh_closed L (snd (connect all acc key))
    \<and> length (snd (connect all acc key)) = length (snd acc)"
proof -
  obtain roots h where acc: "acc = (roots, h)" by (cases acc)
  have closed': "fresh_closed L h" using closed acc by simp
  show ?thesis
  proof (cases rule: connect_cases [of all key roots h])
    case skip
    then show ?thesis using closed' acc by simp
  next
    case (root a)
    then have "L \<le> a" "a < length h" using bound acc by (auto dest: in_ran)
    then show ?thesis
      using root closed' acc by (simp add: fresh_closed_delete)
  next
    case (dangling a parent)
    then have "L \<le> a" "a < length h" using bound acc by (auto dest: in_ran)
    then show ?thesis
      using dangling closed' acc by (simp add: fresh_closed_delete)
  next
    case (child a parent p)
    then have "L \<le> a" "a < length h" "L \<le> p" "p < length h"
      using bound acc by (auto dest: in_ran)
    then show ?thesis
      using child closed' acc by (simp add: fresh_closed_delete fresh_closed_push)
  qed
qed

lemma foldl_connect_closed:
  "fresh_closed L (snd acc) \<Longrightarrow> \<forall>a \<in> ran all. L \<le> a \<and> a < length (snd acc)
     \<Longrightarrow> fresh_closed L (snd (foldl (connect all) acc keys))"
proof (induction keys arbitrary: acc)
  case Nil
  then show ?case by simp
next
  case (Cons key keys)
  from connect_closed [OF Cons.prems, of key]
  have c: "fresh_closed L (snd (connect all acc key))"
    and l: "length (snd (connect all acc key)) = length (snd acc)" by simp_all
  have "\<forall>a \<in> ran all. L \<le> a \<and> a < length (snd (connect all acc key))"
    using Cons.prems(2) l by simp
  from Cons.IH [OF c this] show ?case by simp
qed

lemma reach_fresh:
  assumes closed: "fresh_closed L h" and roots: "\<forall>r \<in> set roots. L \<le> r \<and> r < length h"
    and a: "a \<in> reach h roots"
  shows "L \<le> a \<and> a < length h"
  using a
proof (induction rule: reach.induct)
  case (root r)
  with roots show ?case by blast
next
  case (child a cs c)
  then have "L \<le> a \<and> a < length h \<and> h_children (h ! a) = Some cs" by simp
  from closed [unfolded fresh_closed_def, rule_format, OF this child(3)] show ?case .
qed

text \<open>What a successful call is made of.\<close>

lemma convert_Some:
  assumes "convertParentChildFlatArrayToHierarchicalView fuel h flatArray = Some (roots, h')"
  obtains inputArray h1 where "extend_array fuel h flatArray = Some (inputArray, h1)"
    and "foldl (connect (build_all h1 inputArray)) ([], h1)
           (object_keys (map (\<lambda>a. r_id (h_row (h1 ! a))) inputArray)) = (roots, h')"
  using assms
  by (auto simp: convertParentChildFlatArrayToHierarchicalView_def Let_def split: option.splits)

text \<open>
  The state of a successful call after its loop: the invariant of the loop holds between
  the store of the deep copy and the returned store.
\<close>

lemma convert_inv:
  assumes ea: "extend_array fuel h flatArray = Some (inputArray, h1)"
    and loop: "foldl (connect (build_all h1 inputArray)) ([], h1)
           (object_keys (map (\<lambda>a. r_id (h_row (h1 ! a))) inputArray)) = (roots, h')"
    and bound: "\<forall>x \<in> set inputArray. x < length h1"
  shows "conn_inv (build_all h1 inputArray) h1 (roots, h')"
proof -
  define all where "all = build_all h1 inputArray"
  have "\<forall>a \<in> ran all. a < length h1"
    using bound ran_build_all [of h1 inputArray] by (auto simp: all_def)
  with conn_inv_init have "conn_inv all h1 (foldl (connect all) ([], h1)
           (object_keys (map (\<lambda>a. r_id (h_row (h1 ! a))) inputArray)))"
    by (rule foldl_connect_inv)
  then show ?thesis
    using loop by (simp add: all_def)
qed

text \<open>Every root is a row without parent that stands for a row of the input.\<close>

lemma convert_roots:
  assumes res: "convertParentChildFlatArrayToHierarchicalView fuel h flatArray = Some (roots, h')"
    and valid: "\<forall>a \<in> set flatArray. a < length h"
  shows "\<forall>r \<in> set roots. parentless (h_row (h' ! r))
            \<and> (\<exists>a \<in> set flatArray. r_id (h_row (h' ! r)) = r_id (h_row (h ! a))
                  \<and> r_parent (h_row (h' ! r)) = r_parent (h_row (h ! a)))"
proof
  from res obtain inputArray h1 where ea: "extend_array fuel h flatArray = Some (inputArray, h1)"
    and loop: "foldl (connect (build_all h1 inputArray)) ([], h1)
           (object_keys (map (\<lambda>a. r_id (h_row (h1 ! a))) inputArray)) = (roots, h')"
    by (rule convert_Some)
  define all where "all = build_all h1 inputArray"
  have len: "length inputArray = length flatArray"
    using extend_extends(2) [OF ea] by simp
  have bound: "\<forall>x \<in> set inputArray. x < length h1"
    using ea valid by (rule extend_array_valid)
  from convert_inv [OF ea loop bound] have inv: "conn_inv all h1 (roots, h')"
    by (simp add: all_def)
  then have same: "\<And>a. r_id (h_row (h' ! a)) = r_id (h_row (h1 ! a))"
              "\<And>a. r_parent (h_row (h' ! a)) = r_parent (h_row (h1 ! a))"
    and rts: "\<And>r. r \<in> set roots \<Longrightarrow> r \<in> ran all \<and> parentless (h_row (h1 ! r))"
    by (simp_all add: conn_inv_def)
  fix r
  assume r: "r \<in> set roots"
  from rts [OF r] have r_ran: "r \<in> ran all" and pl: "parentless (h_row (h1 ! r))" by simp_all
  have pl': "parentless (h_row (h' ! r))"
    using pl same(2) [of r] by (simp add: parentless_def)
  from r_ran have "r \<in> set inputArray"
    using ran_build_all [of h1 inputArray] by (auto simp: all_def)
  then obtain i where i: "i < length inputArray" "inputArray ! i = r"
    by (auto simp: in_set_conv_nth)
  from extend_array_rows [OF ea valid]
  have "map (\<lambda>a. h_row (h1 ! a)) inputArray = map (\<lambda>a. h_row (h ! a)) flatArray" by simp
  then have "map (\<lambda>a. h_row (h1 ! a)) inputArray ! i = map (\<lambda>a. h_row (h ! a)) flatArray ! i"
    by simp
  then have row: "h_row (h1 ! r) = h_row (h ! (flatArray ! i))"
    using i len by simp
  have "flatArray ! i \<in> set flatArray" using i len by simp
  then have "\<exists>a \<in> set flatArray. r_id (h_row (h' ! r)) = r_id (h_row (h ! a))
                \<and> r_parent (h_row (h' ! r)) = r_parent (h_row (h ! a))"
    using row same [of r] by auto
  with pl' show "parentless (h_row (h' ! r))
          \<and> (\<exists>a \<in> set flatArray. r_id (h_row (h' ! r)) = r_id (h_row (h ! a))
                \<and> r_parent (h_row (h' ! r)) = r_parent (h_row (h ! a)))" by simp
qed

text \<open>
  When the rows of the input are plain objects, the loop works on fresh copies: the
  objects of the store before the call are unchanged and the roots are fresh.
\<close>

lemma convert_frame:
  assumes res: "convertParentChildFlatArrayToHierarchicalView fuel h flatArray = Some (roots, h')"
    and plain: "\<forall>a \<in> set flatArray. a < length h \<and> h_plain (h ! a)"
  shows "take (length h) h' = h"
    and "\<forall>r \<in> set roots. length h \<le> r \<and> r < length h'"
proof -
  from res obtain inputArray h1 where ea: "extend_array fuel h flatArray = Some (inputArray, h1)"
    and loop: "foldl (connect (build_all h1 inputArray)) ([], h1)
           (object_keys (map (\<lambda>a. r_id (h_row (h1 ! a))) inputArray)) = (roots, h')"
    by (rule convert_Some)
  define all where "all = build_all h1 inputArray"
  have ext: "extends h h1" using extend_extends(2) [OF ea] by simp
  have fresh: "\<forall>x \<in> set inputArray. length h \<le> x \<and> x < length h1"
    using ea plain by (rule extend_array_fresh)
  then have bound: "\<forall>x \<in> set inputArray. x < length h1" by simp
  have ran: "\<forall>a \<in> ran all. length h \<le> a \<and> a < length h1"
    using fresh ran_build_all [of h1 inputArray] by (auto simp: all_def)
  from convert_inv [OF ea loop bound] have inv: "conn_inv all h1 (roots, h')"
    by (simp add: all_def)
  then have len': "length h' = length h1"
    and frame: "\<And>a. a \<notin> ran all \<Longrightarrow> h' ! a = h1 ! a"
    and rts: "\<And>r. r \<in> set roots \<Longrightarrow> r \<in> ran all \<and> parentless (h_row (h1 ! r))"
    by (simp_all add: conn_inv_def)
  show "take (length h) h' = h"
  proof (rule nth_equalityI)
    show "length (take (length h) h') = length h"
      using len' extends_length [OF ext] by simp
  next
    fix i
    assume "i < length (take (length h) h')"
    then have i: "i < length h" by simp
    then have "i \<notin> ran all" using ran by auto
    then have "h' ! i = h1 ! i" by (rule frame)
    also have "\<dots> = h ! i" using ext i by (rule extends_nth)
    finally show "take (length h) h' ! i = h ! i" using i by simp
  qed
  show "\<forall>r \<in> set roots. length h \<le> r \<and> r < length h'"
    using rts ran len' by auto
qed

text \<open>
  When the rows are plain objects to every depth, every object that can be reached from
  the roots is fresh.
\<close>

lemma convert_deep:
  assumes res: "convertParentChildFlatArrayToHierarchicalView fuel h flatArray = Some (roots, h')"
    and plain: "plain_trees fuel h flatArray"
  shows "\<forall>a \<in> reach h' roots. length h \<le> a \<and> a < length h'"
proof -
  from res obtain inputArray h1 where ea: "extend_array fuel h flatArray = Some (inputArray, h1)"
    and loop: "foldl (connect (build_all h1 inputArray)) ([], h1)
           (object_keys (map (\<lambda>a. r_id (h_row (h1 ! a))) inputArray)) = (roots, h')"
    by (rule convert_Some)
  define all where "all = build_all h1 inputArray"
  note top = plain_trees_top [OF plain]
  have fresh: "\<forall>x \<in> set inputArray. length h \<le> x \<and> x < length h1"
    using ea top by (rule extend_array_fresh)
  have ran: "\<forall>a \<in> ran all. length h \<le> a \<and> a < length h1"
    using fresh ran_build_all [of h1 inputArray] by (auto simp: all_def)
  have closed1: "fresh_closed (length h) h1"
  proof (rule extend_fresh_closed(2) [OF ea plain])
    show "length h \<le> length h" by simp
    show "fresh_closed (length h) h" by (simp add: fresh_closed_def)
  qed
  have "fresh_closed (length h) (snd (foldl (connect all) ([], h1)
           (object_keys (map (\<lambda>a. r_id (h_row (h1 ! a))) inputArray))))"
    by (rule foldl_connect_closed) (use closed1 ran in simp_all)
  then have closed': "fresh_closed (length h) h'"
    using loop by (simp add: all_def)
  from convert_frame(2) [OF res top]
  have roots_fresh: "\<forall>r \<in> set roots. length h \<le> r \<and> r < length h'" .
  show "\<forall>a \<in> reach h' roots. length h \<le> a \<and> a < length h'"
    using reach_fresh [OF closed' roots_fresh] by blast
qed

text \<open>
  Rows that are not plain objects are handed over by reference: the deep copy returns
  the array of the same references and the same store, so the roots are objects of the
  input.
\<close>

lemma extend_array_by_reference:
  "extend_array n h as = Some (as', h') \<Longrightarrow> \<forall>a \<in> set as. \<not> h_plain (h ! a)
     \<Longrightarrow> as' = as \<and> h' = h"
proof (induction as arbitrary: as')
  case Nil
  then show ?case by simp
next
  case (Cons c cs)
  from Cons.prems(1) obtain c' h1 cs' where eo: "extend_obj n h c = Some (c', h1)"
    and ea: "extend_array n h1 cs = Some (cs', h')" and res: "as' = c' # cs'"
    by (rule extend_array_Cons)
  from extend_obj_facts(5) [OF eo] Cons.prems(2) have c: "c' = c" "h1 = h" by simp_all
  from ea c(2) have "extend_array n h cs = Some (cs', h')" by simp
  from Cons.IH [OF this] Cons.prems(2) have "cs' = cs \<and> h' = h" by simp
  with res c show ?case by simp
qed

lemma convert_by_reference:
  assumes res: "convertParentChildFlatArrayToHierarchicalView fuel h flatArray = Some (roots, h')"
    and inst: "\<forall>a \<in> set flatArray. a < length h \<and> \<not> h_plain (h ! a)"
  shows "length h' = length h" and "set roots \<subseteq> set flatArray"
proof -
  from res obtain inputArray h1 where ea: "extend_array fuel h flatArray = Some (inputArray, h1)"
    and loop: "foldl (connect (build_all h1 inputArray)) ([], h1)
           (object_keys (map (\<lambda>a. r_id (h_row (h1 ! a))) inputArray)) = (roots, h')"
    by (rule convert_Some)
  from extend_array_by_reference [OF ea] inst
  have same: "inputArray = flatArray" "h1 = h" by simp_all
  have bound: "\<forall>x \<in> set inputArray. x < length h1"
    using inst same by simp
  from convert_inv [OF ea loop bound]
  have inv: "conn_inv (build_all h1 inputArray) h1 (roots, h')" .
  then show "length h' = length h"
    using same by (simp add: conn_inv_def)
  from inv have "\<forall>r \<in> set roots. r \<in> ran (build_all h1 inputArray)"
    by (simp add: conn_inv_def)
  with ran_build_all [of h1 inputArray] same show "set roots \<subseteq> set flatArray" by auto
qed

lemma convert_total:
  assumes "\<forall>a \<in> set flatArray. a < length h \<and> h_children (h ! a) = None"
  shows "\<exists>roots h'. convertParentChildFlatArrayToHierarchicalView (Suc n) h flatArray
           = Some (roots, h')"
proof -
  from extend_array_total [OF assms, of n] obtain as' h1
    where "extend_array (Suc n) h flatArray = Some (as', h1)" by blast
  then show ?thesis
    by (simp add: convertParentChildFlatArrayToHierarchicalView_def Let_def prod_eq_iff)
qed

lemma convert_ends_total:
  assumes "copies_end fuel h flatArray"
  shows "\<exists>roots h'. convertParentChildFlatArrayToHierarchicalView fuel h flatArray
           = Some (roots, h')"
proof -
  from extend_ends_total(2) [OF assms] obtain as' h1
    where "extend_array fuel h flatArray = Some (as', h1)" by blast
  then show ?thesis
    by (simp add: convertParentChildFlatArrayToHierarchicalView_def Let_def prod_eq_iff)
qed

section \<open>Properties of the flattening\<close>

lemma map_r_id_flag_update:
  "map r_id (xs[i := (xs ! i)\<lparr>r_hasChildren := v\<rparr>]) = map r_id xs"
  by (cases "i < length xs") (simp_all add: map_update list_update_same_conv list_update_beyond)

lemma find_id_None: "(List.find (\<lambda>itm. r_id itm = k) out = None) = (k \<notin> set (map r_id out))"
  by (auto simp: find_None_iff)

lemma flatten_into_ids:
  "map r_id (flatten_into xs out lvl pid)
     = foldl add_new (map r_id out) (concat (map node_ids xs))"
proof (induction xs out lvl pid rule: flatten_into.induct)
  case (1 outputArray treeLevel parentId)
  then show ?case by simp
next
  case (2 rest outputArray treeLevel parentId)
  then show ?case by simp
next
  case (3 item children rest outputArray treeLevel parentId)
  define out1 where "out1 = (if List.find (\<lambda>itm. r_id itm = r_id item) outputArray = None
                  then outputArray @
                       [item\<lparr>r_treeLevel := Some treeLevel,
                             r_parentId := parentId_or_null parentId\<rparr>]
                  else outputArray)"
  have ids1: "map r_id out1 = add_new (map r_id outputArray) (r_id item)"
    by (simp add: out1_def add_new_def find_id_None)
  show ?case
  proof (cases children)
    case None
    have "map r_id (flatten_into rest out1 treeLevel parentId)
        = foldl add_new (map r_id out1) (concat (map node_ids rest))"
      using "3.IH"(1) [OF refl out1_def None] .
    moreover have "flatten_into (Node item children # rest) outputArray treeLevel parentId
        = flatten_into rest out1 treeLevel parentId"
      unfolding out1_def using None by (simp add: Let_def)
    ultimately show ?thesis
      using None ids1 by simp
  next
    case (Some cs)
    define out2 where "out2 = flatten_into cs out1 (treeLevel + 1) (Some (r_id item))"
    define out3 where "out3 = (if List.find (\<lambda>itm. r_id itm = r_id item) outputArray = None
                          then out2[length outputArray :=
                                 (out2 ! length outputArray)\<lparr>r_hasChildren := Some True\<rparr>]
                          else out2)"
    have ids2: "map r_id out2 = foldl add_new (map r_id out1) (concat (map node_ids cs))"
      unfolding out2_def using "3.IH"(2) [OF refl out1_def Some] .
    have ids3: "map r_id out3 = map r_id out2"
      by (simp add: out3_def map_r_id_flag_update)
    have "map r_id (flatten_into rest out3 treeLevel parentId)
        = foldl add_new (map r_id out3) (concat (map node_ids rest))"
      using "3.IH"(3) [OF refl out1_def Some out2_def out3_def] .
    moreover have "flatten_into (Node item children # rest) outputArray treeLevel parentId
        = flatten_into rest out3 treeLevel parentId"
      unfolding out3_def out2_def out1_def using Some by (simp add: Let_def)
    ultimately show ?thesis
      using Some ids1 ids2 ids3 by simp
  qed
qed

lemma distinct_add_new: "distinct acc \<Longrightarrow> distinct (add_new acc i)"
  by (simp add: add_new_def)

lemma distinct_foldl_add_new: "distinct acc \<Longrightarrow> distinct (foldl add_new acc is)"
  by (induction "is" arbitrary: acc) (simp_all add: distinct_add_new)

lemma set_foldl_add_new: "set (foldl add_new acc is) = set acc \<union> set is"
  by (induction "is" arbitrary: acc) (auto simp: add_new_def)

lemma foldl_add_new_seen: "set is \<subseteq> set acc \<Longrightarrow> foldl add_new acc is = acc"
  by (induction "is" arbitrary: acc) (auto simp: add_new_def)

section \<open>The claims about the tree conversions\<close>

text \<open>
  Claim C2, as amended. The call raises no error on a dangling parent reference: it
  returns for every array of valid references to rows without nested children. But the
  returned roots hold only rows without a parent: each root is the copy of an input row
  (the row itself, when it is not a plain object) whose parent property is missing or
  \<open>null\<close>, so a row whose parent is present and not \<open>null\<close> and matches no
  identifier is not among the roots.
\<close>

theorem roots_only_parentless:
  assumes valid: "\<forall>a \<in> set flatArray. a < length h"
  shows "(convertParentChildFlatArrayToHierarchicalView fuel h flatArray = Some (roots, h')
            \<longrightarrow> (\<forall>r \<in> set roots. parentless (h_row (h' ! r))
                  \<and> (\<exists>a \<in> set flatArray. r_id (h_row (h' ! r)) = r_id (h_row (h ! a))
                        \<and> r_parent (h_row (h' ! r)) = r_parent (h_row (h ! a)))))
    \<and> ((\<forall>a \<in> set flatArray. h_children (h ! a) = None)
          \<longrightarrow> (\<exists>rs hh. convertParentChildFlatArrayToHierarchicalView (Suc n) h flatArray
                   = Some (rs, hh)))"
proof (intro conjI impI)
  assume "convertParentChildFlatArrayToHierarchicalView fuel h flatArray = Some (roots, h')"
  from convert_roots [OF this valid]
  show "\<forall>r \<in> set roots. parentless (h_row (h' ! r))
                  \<and> (\<exists>a \<in> set flatArray. r_id (h_row (h' ! r)) = r_id (h_row (h ! a))
                        \<and> r_parent (h_row (h' ! r)) = r_parent (h_row (h ! a)))" .
next
  assume "\<forall>a \<in> set flatArray. h_children (h ! a) = None"
  with valid have "\<forall>a \<in> set flatArray. a < length h \<and> h_children (h ! a) = None" by simp
  then show "\<exists>rs hh. convertParentChildFlatArrayToHierarchicalView (Suc n) h flatArray
                   = Some (rs, hh)"
    by (rule convert_total)
qed

text \<open>
  Claim C2 as stated fails on \<open>[{id: 1}, {id: 2, parentId: 99}]\<close>: the call returns, and
  the only root is the row 1; the row 2, whose parent 99 matches no row, is not a root.
\<close>

theorem dangling_parent_counterexample:
  "root_ids (convertParentChildFlatArrayToHierarchicalView 1 dangling_rows [0, 1]) = Some [1]"
  by code_simp

text \<open>
  The call on the same rows, object by object: the two copies are the objects 2 and 3,
  the root is the copy of row 1, and the copy of row 2 is in no array.
\<close>

lemma dangling_rows_result:
  "convertParentChildFlatArrayToHierarchicalView 1 dangling_rows [0, 1]
     = Some ([2], [flat_row 1 ParentAbsent, flat_row 2 (ParentId 99),
                   flat_row 1 ParentAbsent, flat_row 2 (ParentId 99)])"
  by code_simp

theorem roots_only_parentless_witness:
  "parentless (h_row (flat_row 1 ParentAbsent))
   \<and> r_id (h_row (flat_row 1 ParentAbsent)) = 1
   \<and> (\<exists>rs hh. convertParentChildFlatArrayToHierarchicalView 1 dangling_rows [0, 1] = Some (rs, hh))"
proof -
  have valid: "\<forall>a \<in> set [0, 1]. a < length dangling_rows"
    by (simp add: dangling_rows_def)
  have childless: "\<forall>a \<in> set [0, 1]. h_children (dangling_rows ! a) = None"
    by (simp add: dangling_rows_def flat_row_def)
  note inst = roots_only_parentless [OF valid, of 1 "[2]"
      "[flat_row 1 ParentAbsent, flat_row 2 (ParentId 99),
        flat_row 1 ParentAbsent, flat_row 2 (ParentId 99)]" 0]
  from inst dangling_rows_result have "parentless (h_row (flat_row 1 ParentAbsent))"
    by simp
  moreover have "r_id (h_row (flat_row 1 ParentAbsent)) = 1"
    by (simp add: flat_row_def)
  moreover from inst childless
  have "\<exists>rs hh. convertParentChildFlatArrayToHierarchicalView 1 dangling_rows [0, 1] = Some (rs, hh)"
    by simp
  ultimately show ?thesis by simp
qed

text \<open>
  Claim C9, as amended. The frame property holds for rows that are plain objects, which
  is what the deep copy of jQuery clones. The call returns when the deep copy ends: for
  every array of valid references under which plain objects are nested no deeper than
  the fuel. For an array of valid references to plain objects, whatever the call
  returns, every object of the store before the call is unchanged after it (the input
  array refers to such objects, and the array itself is never written) and every root is
  an object allocated by the call. When the rows are plain objects to every depth of
  their children, every object reachable from the roots through children is an object
  allocated by the call: the result shares no object with the input. For rows that are
  not plain objects the deep copy hands the rows over by reference: no object is
  allocated and every root is an object of the input array.
\<close>

theorem input_not_mutated:
  "(copies_end fuel h flatArray
      \<longrightarrow> (\<exists>rs hh. convertParentChildFlatArrayToHierarchicalView fuel h flatArray = Some (rs, hh)))
   \<and> ((\<forall>a \<in> set flatArray. a < length h \<and> h_plain (h ! a))
      \<and> convertParentChildFlatArrayToHierarchicalView fuel h flatArray = Some (roots, h')
      \<longrightarrow> take (length h) h' = h
          \<and> (\<forall>a \<in> set flatArray. h' ! a = h ! a)
          \<and> (\<forall>r \<in> set roots. length h \<le> r \<and> r < length h'))
   \<and> (plain_trees fuel h flatArray
        \<longrightarrow> (\<exists>rs hh. convertParentChildFlatArrayToHierarchicalView fuel h flatArray = Some (rs, hh)
              \<and> take (length h) hh = h
              \<and> (\<forall>a \<in> reach hh rs. length h \<le> a \<and> a < length hh)))
   \<and> ((\<forall>a \<in> set flatArray. a < length h \<and> \<not> h_plain (h ! a))
      \<and> convertParentChildFlatArrayToHierarchicalView fuel h flatArray = Some (roots, h')
      \<longrightarrow> length h' = length h \<and> set roots \<subseteq> set flatArray)"
proof (intro conjI impI)
  assume "copies_end fuel h flatArray"
  then show "\<exists>rs hh. convertParentChildFlatArrayToHierarchicalView fuel h flatArray = Some (rs, hh)"
    by (rule convert_ends_total)
next
  assume a: "(\<forall>a \<in> set flatArray. a < length h \<and> h_plain (h ! a))
      \<and> convertParentChildFlatArrayToHierarchicalView fuel h flatArray = Some (roots, h')"
  then have plain: "\<forall>a \<in> set flatArray. a < length h \<and> h_plain (h ! a)"
    and res: "convertParentChildFlatArrayToHierarchicalView fuel h flatArray = Some (roots, h')"
    by simp_all
  from convert_frame(1) [OF res plain] show t: "take (length h) h' = h" .
  show "\<forall>a \<in> set flatArray. h' ! a = h ! a"
  proof
    fix a
    assume "a \<in> set flatArray"
    with plain have "a < length h" by simp
    then have "take (length h) h' ! a = h' ! a" by simp
    with t show "h' ! a = h ! a" by simp
  qed
  from convert_frame(2) [OF res plain]
  show "\<forall>r \<in> set roots. length h \<le> r \<and> r < length h'" .
next
  assume plain: "plain_trees fuel h flatArray"
  from convert_ends_total [OF plain_tree_ends(2) [OF plain]] obtain rs hh
    where res: "convertParentChildFlatArrayToHierarchicalView fuel h flatArray = Some (rs, hh)"
    by (elim exE)
  from convert_frame(1) [OF res plain_trees_top [OF plain]] have t: "take (length h) hh = h" .
  from convert_deep [OF res plain]
  have r: "\<forall>a \<in> reach hh rs. length h \<le> a \<and> a < length hh" .
  from res t r
  show "\<exists>rs hh. convertParentChildFlatArrayToHierarchicalView fuel h flatArray = Some (rs, hh)
              \<and> take (length h) hh = h
              \<and> (\<forall>a \<in> reach hh rs. length h \<le> a \<and> a < length hh)"
    by (intro exI [of _ rs] exI [of _ hh] conjI)
next
  assume a: "(\<forall>a \<in> set flatArray. a < length h \<and> \<not> h_plain (h ! a))
      \<and> convertParentChildFlatArrayToHierarchicalView fuel h flatArray = Some (roots, h')"
  then have inst: "\<forall>a \<in> set flatArray. a < length h \<and> \<not> h_plain (h ! a)"
    and res: "convertParentChildFlatArrayToHierarchicalView fuel h flatArray = Some (roots, h')"
    by simp_all
  from convert_by_reference [OF res inst]
  show "length h' = length h" and "set roots \<subseteq> set flatArray" by simp_all
qed

lemma nested_rows_result:
  "convertParentChildFlatArrayToHierarchicalView 2 nested_rows [0, 1]
     = Some ([4], [(flat_row 1 ParentAbsent)\<lparr>h_children := Some [2]\<rparr>,
                   flat_row 2 (ParentId 1), flat_row 5 ParentAbsent,
                   flat_row 5 ParentAbsent,
                   (flat_row 1 ParentAbsent)\<lparr>h_children := Some [3, 5]\<rparr>,
                   flat_row 2 (ParentId 1)])"
  by code_simp

lemma mixed_rows_result:
  "convertParentChildFlatArrayToHierarchicalView 2 mixed_rows [0]
     = Some ([2], [(flat_row 1 ParentAbsent)\<lparr>h_children := Some [1]\<rparr>,
                   class_row 5 ParentAbsent,
                   (flat_row 1 ParentAbsent)\<lparr>h_children := Some [1]\<rparr>])"
  by code_simp

lemma instance_rows_result:
  "convertParentChildFlatArrayToHierarchicalView 1 instance_rows [0, 1]
     = Some ([0], [(class_row 1 ParentAbsent)\<lparr>h_children := Some [1]\<rparr>,
                   class_row 2 (ParentId 1)])"
  by code_simp

text \<open>
  The theorem at \<open>[{id: 1, children: [{id: 5}]}, {id: 2, parentId: 1}]\<close>, rows that are
  object literals to every depth: the call returns the root 4, a fresh copy of the row
  1 whose children are the fresh objects 3 and 5; the three objects of the input are
  unchanged and none of them can be reached from the root. At the object literal
  \<open>[{id: 1, children: [c]}]\<close> with an instance \<open>c\<close> of a class as its child: the deep copy
  ends, the call returns the root 2, a fresh copy of the row, and the two objects of the
  input are unchanged. And at \<open>[{id: 1}, {id: 2, parentId: 1}]\<close>, rows that are
  instances of a class: the call allocates nothing and its root is the object 0 of the
  input.
\<close>

theorem input_not_mutated_witness:
  "(\<exists>hh. convertParentChildFlatArrayToHierarchicalView 2 nested_rows [0, 1] = Some ([4], hh)
        \<and> take 3 hh = nested_rows
        \<and> 0 \<notin> reach hh [4] \<and> 1 \<notin> reach hh [4] \<and> 2 \<notin> reach hh [4]
        \<and> hh ! 0 = nested_rows ! 0 \<and> hh ! 1 = nested_rows ! 1)
   \<and> (\<exists>hh. convertParentChildFlatArrayToHierarchicalView 2 mixed_rows [0] = Some ([2], hh)
        \<and> take 2 hh = mixed_rows)
   \<and> (\<exists>hh. convertParentChildFlatArrayToHierarchicalView 1 instance_rows [0, 1] = Some ([0], hh)
        \<and> length hh = 2)"
proof (intro conjI)
  let ?hh = "[(flat_row 1 ParentAbsent)\<lparr>h_children := Some [2]\<rparr>,
              flat_row 2 (ParentId 1), flat_row 5 ParentAbsent,
              flat_row 5 ParentAbsent,
              (flat_row 1 ParentAbsent)\<lparr>h_children := Some [3, 5]\<rparr>,
              flat_row 2 (ParentId 1)]"
  note inst = input_not_mutated [where h = nested_rows and flatArray = "[0, 1]" and fuel = 2
      and roots = "[4]" and h' = ?hh]
  note frame = inst [THEN conjunct2, THEN conjunct1]
  note deep_frame = inst [THEN conjunct2, THEN conjunct2, THEN conjunct1]
  have len: "length nested_rows = 3" by (simp add: nested_rows_def)
  have top: "\<forall>a \<in> set [0, 1]. a < length nested_rows \<and> h_plain (nested_rows ! a)"
    by (simp add: nested_rows_def flat_row_def)
  have deep: "plain_trees 2 nested_rows [0, 1]"
    by (simp add: nested_rows_def flat_row_def numeral_2_eq_2)
  from deep_frame [THEN mp, OF deep] obtain rs hh
    where res: "convertParentChildFlatArrayToHierarchicalView 2 nested_rows [0, 1] = Some (rs, hh)"
      and t: "take (length nested_rows) hh = nested_rows"
      and r: "\<forall>a \<in> reach hh rs. length nested_rows \<le> a \<and> a < length hh"
    by (elim exE conjE)
  from res nested_rows_result have rs: "rs = [4]" and hh: "hh = ?hh" by simp_all
  have unreached: "a \<notin> reach hh [4]" if "a < 3" for a
  proof
    assume "a \<in> reach hh [4]"
    with r rs have "length nested_rows \<le> a" by simp
    with that len show False by simp
  qed
  from frame [THEN mp, OF conjI [OF top nested_rows_result]]
  have same: "\<forall>a \<in> set [0, 1]. ?hh ! a = nested_rows ! a" by (elim conjE)
  then have s0: "hh ! 0 = nested_rows ! 0" and s1: "hh ! 1 = nested_rows ! 1"
    unfolding hh by simp_all
  from res rs t len unreached [of 0] unreached [of 1] unreached [of 2] s0 s1
  show "\<exists>hh. convertParentChildFlatArrayToHierarchicalView 2 nested_rows [0, 1] = Some ([4], hh)
        \<and> take 3 hh = nested_rows
        \<and> 0 \<notin> reach hh [4] \<and> 1 \<notin> reach hh [4] \<and> 2 \<notin> reach hh [4]
        \<and> hh ! 0 = nested_rows ! 0 \<and> hh ! 1 = nested_rows ! 1"
    by (intro exI [of _ hh]) simp
next
  let ?hm = "[(flat_row 1 ParentAbsent)\<lparr>h_children := Some [1]\<rparr>, class_row 5 ParentAbsent,
              (flat_row 1 ParentAbsent)\<lparr>h_children := Some [1]\<rparr>]"
  note inst = input_not_mutated [where h = mixed_rows and flatArray = "[0]" and fuel = 2
      and roots = "[2]" and h' = ?hm]
  note returns = inst [THEN conjunct1]
  note frame = inst [THEN conjunct2, THEN conjunct1]
  have len: "length mixed_rows = 2" by (simp add: mixed_rows_def)
  have ends: "copies_end 2 mixed_rows [0]"
    by (simp add: mixed_rows_def flat_row_def class_row_def numeral_2_eq_2)
  have top: "\<forall>a \<in> set [0]. a < length mixed_rows \<and> h_plain (mixed_rows ! a)"
    by (simp add: mixed_rows_def flat_row_def)
  from returns [THEN mp, OF ends] obtain rs hh
    where res: "convertParentChildFlatArrayToHierarchicalView 2 mixed_rows [0] = Some (rs, hh)"
    by (elim exE)
  from res mixed_rows_result have rs: "rs = [2]" and hh: "hh = ?hm" by simp_all
  from frame [THEN mp, OF conjI [OF top mixed_rows_result]]
  have "take (length mixed_rows) ?hm = mixed_rows" by (elim conjE)
  with len hh have "take 2 hh = mixed_rows" by simp
  with res rs
  show "\<exists>hh. convertParentChildFlatArrayToHierarchicalView 2 mixed_rows [0] = Some ([2], hh)
        \<and> take 2 hh = mixed_rows"
    by (intro exI [of _ hh]) simp
next
  let ?hi = "[(class_row 1 ParentAbsent)\<lparr>h_children := Some [1]\<rparr>, class_row 2 (ParentId 1)]"
  note inst = input_not_mutated [where h = instance_rows and flatArray = "[0, 1]" and fuel = 1
      and roots = "[0]" and h' = ?hi]
  note shared = inst [THEN conjunct2, THEN conjunct2, THEN conjunct2]
  have cls: "\<forall>a \<in> set [0, 1]. a < length instance_rows \<and> \<not> h_plain (instance_rows ! a)"
    by (simp add: instance_rows_def class_row_def flat_row_def)
  from shared [THEN mp, OF conjI [OF cls instance_rows_result]]
  have "length ?hi = length instance_rows" by (rule conjunct1)
  then have "length ?hi = 2" by (simp add: instance_rows_def)
  with instance_rows_result
  show "\<exists>hh. convertParentChildFlatArrayToHierarchicalView 1 instance_rows [0, 1] = Some ([0], hh)
        \<and> length hh = 2"
    by (intro exI [of _ ?hi] conjI)
qed

text \<open>
  Claim C9 as stated fails on rows that are instances of a class. On
  \<open>[{id: 1}, {id: 2, parentId: 1}]\<close>, the objects 0 and 1 of the store, the call
  allocates no object: the returned root is the object 0 of the input, and that object
  has been mutated, since the object 1 is now in its children.
\<close>

theorem class_instance_rows_mutated_counterexample:
  "convertParentChildFlatArrayToHierarchicalView 1 instance_rows [0, 1]
     = Some ([0], [(class_row 1 ParentAbsent)\<lparr>h_children := Some [1]\<rparr>,
                   class_row 2 (ParentId 1)])
   \<and> instance_rows ! 0 = class_row 1 ParentAbsent
   \<and> h_children (class_row 1 ParentAbsent) = None"
  by code_simp

text \<open>
  Claim C6. The identifiers of the output are those it held, followed by the
  identifiers met in the walk, each appended unless the output already holds it. So an
  output without duplicates stays without duplicates, the output of
  \<open>convertHierarchicalViewToFlatArray\<close> has none, and a node whose identifier is
  already in the output is skipped. The function is total: no input, however
  malformed, raises.
\<close>

theorem flatten_no_duplicate_ids:
  "map r_id (convertHierarchicalViewToFlatArrayByOutputArrayReference xs out lvl pid)
     = foldl add_new (map r_id out) (concat (map node_ids xs))
   \<and> (distinct (map r_id out) \<longrightarrow>
        distinct (map r_id (convertHierarchicalViewToFlatArrayByOutputArrayReference xs out lvl pid)))
   \<and> distinct (map r_id (convertHierarchicalViewToFlatArray xs))
   \<and> set (map r_id (convertHierarchicalViewToFlatArray xs)) = set (concat (map node_ids xs))
   \<and> (r_id item \<in> set (map r_id out) \<longrightarrow>
        convertHierarchicalViewToFlatArrayByOutputArrayReference [Node item None] out lvl pid = out)"
proof -
  have skip: "convertHierarchicalViewToFlatArrayByOutputArrayReference [Node item None] out lvl pid = out"
    if "r_id item \<in> set (map r_id out)"
  proof -
    from that have "List.find (\<lambda>itm. r_id itm = r_id item) out \<noteq> None"
      by (simp add: find_id_None)
    then show ?thesis
      by (simp add: convertHierarchicalViewToFlatArrayByOutputArrayReference_def Let_def)
  qed
  show ?thesis
    using skip
    by (simp add: convertHierarchicalViewToFlatArrayByOutputArrayReference_def
        convertHierarchicalViewToFlatArray_def flatten_into_ids distinct_foldl_add_new
        set_foldl_add_new)
qed

text \<open>
  The theorem at the malformed tree, flattened into an output that already holds a row
  with the identifier 1.
\<close>

theorem flatten_no_duplicate_ids_witness:
  "map r_id (convertHierarchicalViewToFlatArrayByOutputArrayReference malformed_tree
               [sample_row 1] 0 None) = [1, 2]
   \<and> distinct (map r_id (convertHierarchicalViewToFlatArrayByOutputArrayReference malformed_tree
               [sample_row 1] 0 None))
   \<and> map r_id (convertHierarchicalViewToFlatArray malformed_tree) = [1, 2]
   \<and> convertHierarchicalViewToFlatArrayByOutputArrayReference [Node (sample_row 1) None]
        [sample_row 1] 0 None = [sample_row 1]"
proof -
  have ids: "concat (map node_ids malformed_tree) = [1, 2, 1, 2]"
    by (simp add: malformed_tree_def sample_row_def)
  have r1: "r_id (sample_row 1) = 1"
    by (simp add: sample_row_def)
  have flat: "map r_id (convertHierarchicalViewToFlatArray malformed_tree) = [1, 2]"
    by (simp add: convertHierarchicalViewToFlatArray_def
        convertHierarchicalViewToFlatArrayByOutputArrayReference_def flatten_into_ids ids
        add_new_def)
  from flatten_no_duplicate_ids [of malformed_tree "[sample_row 1]" 0 None "sample_row 1"]
  show ?thesis
    using flat by (simp add: ids r1 add_new_def)
qed

section \<open>Properties of the deduplication and of the roll-up\<close>

lemma dedupe_loop_keys:
  "\<forall>k \<in> set seen. k \<in> keys_of out \<Longrightarrow>
     keys_of (dedupe_loop seen out xs) = keys_of out \<union> keys_of xs"
proof (induction xs arbitrary: seen out)
  case Nil
  then show ?case by (simp add: keys_of_def)
next
  case (Cons item rest)
  show ?case
  proof (cases "seen_is_1 seen (to_string item)")
    case True
    then have "to_string item \<in> keys_of out"
      using Cons.prems by (simp add: seen_is_1_def)
    then have "keys_of out \<union> keys_of (item # rest) = keys_of out \<union> keys_of rest"
      by (auto simp: keys_of_def)
    with True Cons.IH [OF Cons.prems] show ?thesis by simp
  next
    case False
    have "\<forall>k \<in> set (seen_set_1 seen (to_string item)). k \<in> keys_of (out @ [item])"
      using Cons.prems by (auto simp: seen_set_1_def keys_of_def)
    from Cons.IH [OF this]
    have "keys_of (dedupe_loop (seen_set_1 seen (to_string item)) (out @ [item]) rest)
        = keys_of (out @ [item]) \<union> keys_of rest" .
    also have "\<dots> = keys_of out \<union> keys_of (item # rest)"
      by (auto simp: keys_of_def)
    finally show ?thesis using False by simp
  qed
qed

lemma dedupe_keys: "keys_of (dedupePrimitiveArray xs) = keys_of xs"
  using dedupe_loop_keys [of "[]" "[]" xs]
  by (simp add: dedupePrimitiveArray_def keys_of_def)

lemma keys_of_append: "keys_of (xs @ ys) = keys_of xs \<union> keys_of ys"
  by (auto simp: keys_of_def)

lemma getItemById_less: "getItemById ds k = Some j \<Longrightarrow> j < length ds"
  by (auto simp: getItemById_def find_Some_iff)

lemma same_shape_refl: "same_shape ds ds"
  by (simp add: same_shape_def)

lemma same_shape_getItemById:
  assumes "same_shape ds cur"
  shows "getItemById cur k = getItemById ds k"
proof -
  have len: "length cur = length ds" using assms by (simp add: same_shape_def)
  have "List.find (\<lambda>j. i_id (cur ! j) = k) [0..<length ds]
      = List.find (\<lambda>j. i_id (ds ! j) = k) [0..<length ds]"
  proof (rule find_cong)
    show "[0..<length ds] = [0..<length ds]" by simp
  next
    fix x
    assume "x \<in> set [0..<length ds]"
    then have "x < length ds" by simp
    with assms show "(i_id (cur ! x) = k) = (i_id (ds ! x) = k)"
      by (simp add: same_shape_def)
  qed
  then show ?thesis by (simp add: getItemById_def len)
qed

lemma same_shape_parent_of:
  assumes "same_shape ds cur" and "j < length ds"
  shows "parent_of cur j = parent_of ds j"
proof -
  have "i_parent (cur ! j) = i_parent (ds ! j)"
    using assms by (simp add: same_shape_def)
  then show ?thesis
    by (simp add: parent_of_def same_shape_getItemById [OF assms(1)] split: parent_ref.splits)
qed

lemma same_shape_update:
  assumes "same_shape ds cur"
  shows "same_shape ds (cur[p := (cur ! p)\<lparr>i_treeItems := v\<rparr>])"
proof -
  have len: "length cur = length ds" using assms by (simp add: same_shape_def)
  have "i_id ((cur[p := (cur ! p)\<lparr>i_treeItems := v\<rparr>]) ! j) = i_id (ds ! j)
      \<and> i_parent ((cur[p := (cur ! p)\<lparr>i_treeItems := v\<rparr>]) ! j) = i_parent (ds ! j)
      \<and> i_value ((cur[p := (cur ! p)\<lparr>i_treeItems := v\<rparr>]) ! j) = i_value (ds ! j)"
    if "j < length ds" for j
    using that assms len by (cases "j = p") (simp_all add: same_shape_def)
  then show ?thesis
    using len by (simp add: same_shape_def)
qed

lemma parent_of_less:
  "parent_of ds j = Some k \<Longrightarrow> k < length ds"
  by (auto simp: parent_of_def dest: getItemById_less split: parent_ref.splits)

lemma parents_first_less:
  "parents_first ds \<Longrightarrow> j < length ds \<Longrightarrow> parent_of ds j = Some k \<Longrightarrow> k < j"
  by (simp add: parents_first_def)

lemma under_le:
  assumes pf: "parents_first ds" and u: "in_subtree ds a j" and j: "j < length ds"
  shows "a \<le> j"
  using u j
proof (induction rule: in_subtree.induct)
  case self
  show ?case by simp
next
  case (step j k)
  from parents_first_less [OF pf step.prems step.hyps(1)] have "k < j" .
  with step.prems step.IH show ?case by simp
qed

lemma under_trans: "in_subtree ds b c \<Longrightarrow> in_subtree ds a b \<Longrightarrow> in_subtree ds a c"
proof (induction rule: in_subtree.induct)
  case self
  then show ?case .
next
  case (step j k)
  from step.IH [OF step.prems] have "in_subtree ds a k" .
  with step.hyps(1) show ?case by (rule in_subtree.step)
qed

lemma under_parent: "parent_of ds c = Some p \<Longrightarrow> in_subtree ds p c"
  by (rule in_subtree.step [OF _ in_subtree.self])

lemma under_inv:
  "in_subtree ds a j \<Longrightarrow> a = j \<or> (\<exists>k. parent_of ds j = Some k \<and> in_subtree ds a k)"
  by (erule in_subtree.cases) auto

lemma under_lin:
  "in_subtree ds a i \<Longrightarrow> in_subtree ds b i \<Longrightarrow> in_subtree ds a b \<or> in_subtree ds b a"
proof (induction arbitrary: b rule: in_subtree.induct)
  case self
  then show ?case by simp
next
  case (step j k)
  from under_inv [OF step.prems] show ?case
  proof
    assume "b = j"
    moreover have "in_subtree ds a j" using step.hyps by (rule in_subtree.step)
    ultimately show ?thesis by simp
  next
    assume "\<exists>k'. parent_of ds j = Some k' \<and> in_subtree ds b k'"
    with step.hyps(1) have "in_subtree ds b k" by auto
    from step.IH [OF this] show ?thesis .
  qed
qed

lemma rolled_Suc:
  "rolled ds (Suc i) j = rolled ds i j \<union> (if in_subtree ds j i then {to_string (i_value (ds ! i))} else {})"
proof -
  have "{i_value (ds ! m) | m. m < Suc i \<and> in_subtree ds j m}
      = {i_value (ds ! m) | m. m < i \<and> in_subtree ds j m}
        \<union> (if in_subtree ds j i then {i_value (ds ! i)} else {})"
    by (auto simp: less_Suc_eq)
  then show ?thesis
    by (simp add: rolled_def image_Un)
qed

lemma rolled_mono:
  assumes "in_subtree ds p c"
  shows "rolled ds i c \<subseteq> rolled ds i p"
proof -
  have "in_subtree ds p m" if "in_subtree ds c m" for m
    using that assms by (rule under_trans)
  then show ?thesis
    by (auto simp: rolled_def)
qed

lemma rolled_self_empty:
  assumes pf: "parents_first ds" and i: "i \<le> length ds"
  shows "rolled ds i i = {}"
proof -
  have "\<not> (m < i \<and> in_subtree ds i m)" for m
  proof
    assume m: "m < i \<and> in_subtree ds i m"
    then have "m < length ds" using i by simp
    with under_le [OF pf] m have "i \<le> m" by blast
    with m show False by simp
  qed
  then show ?thesis by (simp add: rolled_def)
qed

lemma walk_inv_top:
  assumes pf: "parents_first ds" and i: "i < length ds" and c: "c \<le> i" "in_subtree ds c i"
    and top: "parent_of ds c = None" and inv: "walk_inv ds i c cur"
  shows "rolled_upto ds (Suc i) cur"
proof -
  have shape: "same_shape ds cur" using inv by (simp add: walk_inv_def)
  have "\<exists>xs. i_treeItems (cur ! j) = Some xs \<and> keys_of xs = rolled ds (Suc i) j"
    if j: "j < Suc i" for j
  proof -
    from j have "j \<le> i" by simp
    with inv obtain xs where xs: "i_treeItems (cur ! j) = Some xs"
      and k: "keys_of xs = rolled ds i j
                 \<union> (if in_subtree ds j i \<and> c \<le> j then {to_string (i_value (ds ! i))} else {})"
      unfolding walk_inv_def by blast
    have "c \<le> j" if u: "in_subtree ds j i"
    proof -
      from under_lin [OF u c(2)] show ?thesis
      proof
        assume "in_subtree ds j c"
        from under_inv [OF this] top have "j = c" by auto
        then show ?thesis by simp
      next
        assume "in_subtree ds c j"
        moreover have "j < length ds" using j i by simp
        ultimately show ?thesis using under_le [OF pf] by blast
      qed
    qed
    then have "keys_of xs = rolled ds (Suc i) j"
      using k by (auto simp: rolled_Suc)
    with xs show ?thesis by blast
  qed
  with shape show ?thesis by (simp add: rolled_upto_def)
qed

lemma walk_inv_step:
  assumes pf: "parents_first ds" and i: "i < length ds" and c: "c \<le> i" "in_subtree ds c i"
    and par: "parent_of ds c = Some p" and inv: "walk_inv ds i c cur"
  shows "\<exists>pxs cxs. i_treeItems (cur ! p) = Some pxs \<and> i_treeItems (cur ! c) = Some cxs
     \<and> walk_inv ds i p
          (cur[p := (cur ! p)\<lparr>i_treeItems := Some (dedupePrimitiveArray (pxs @ cxs))\<rparr>])
     \<and> p < c \<and> in_subtree ds p i"
proof -
  let ?kv = "to_string (i_value (ds ! i))"
  have shape: "same_shape ds cur" using inv by (simp add: walk_inv_def)
  then have len: "length cur = length ds" by (simp add: same_shape_def)
  have c_len: "c < length ds" using c i by simp
  from parents_first_less [OF pf c_len par] have pc: "p < c" .
  have upc: "in_subtree ds p c" using par by (rule under_parent)
  have upi: "in_subtree ds p i" using c(2) upc by (rule under_trans)
  have p_le: "p \<le> i" using pc c by simp
  from inv p_le obtain pxs where pxs: "i_treeItems (cur ! p) = Some pxs"
    and kp: "keys_of pxs = rolled ds i p
                 \<union> (if in_subtree ds p i \<and> c \<le> p then {?kv} else {})"
    unfolding walk_inv_def by blast
  from inv c(1) obtain cxs where cxs: "i_treeItems (cur ! c) = Some cxs"
    and kc: "keys_of cxs = rolled ds i c
                 \<union> (if in_subtree ds c i \<and> c \<le> c then {?kv} else {})"
    unfolding walk_inv_def by blast
  have kp': "keys_of pxs = rolled ds i p" using kp pc by simp
  have kc': "keys_of cxs = rolled ds i c \<union> {?kv}" using kc c(2) by simp
  have knew: "keys_of (dedupePrimitiveArray (pxs @ cxs)) = rolled ds i p \<union> {?kv}"
    using rolled_mono [OF upc, of i] by (auto simp: dedupe_keys keys_of_append kp' kc')
  let ?cur' = "cur[p := (cur ! p)\<lparr>i_treeItems := Some (dedupePrimitiveArray (pxs @ cxs))\<rparr>]"
  have shape': "same_shape ds ?cur'" using shape by (rule same_shape_update)
  have p_len: "p < length cur" using pc c_len len by simp
  have "\<exists>xs. i_treeItems (?cur' ! j) = Some xs
            \<and> keys_of xs = rolled ds i j
                 \<union> (if in_subtree ds j i \<and> p \<le> j then {?kv} else {})"
    if j: "j \<le> i" for j
  proof (cases "j = p")
    case True
    then have "i_treeItems (?cur' ! j) = Some (dedupePrimitiveArray (pxs @ cxs))"
      using p_len by simp
    moreover have "keys_of (dedupePrimitiveArray (pxs @ cxs))
        = rolled ds i j \<union> (if in_subtree ds j i \<and> p \<le> j then {?kv} else {})"
      using knew True upi by simp
    ultimately show ?thesis by blast
  next
    case False
    then have same: "?cur' ! j = cur ! j" by simp
    from inv j obtain xs where xs: "i_treeItems (cur ! j) = Some xs"
      and k: "keys_of xs = rolled ds i j
                 \<union> (if in_subtree ds j i \<and> c \<le> j then {?kv} else {})"
      unfolding walk_inv_def by blast
    have "c \<le> j" if u: "in_subtree ds j i" and pj: "p \<le> j"
    proof -
      from under_lin [OF u c(2)] show ?thesis
      proof
        assume "in_subtree ds j c"
        from under_inv [OF this] show ?thesis
        proof
          assume "j = c"
          then show ?thesis by simp
        next
          assume "\<exists>k. parent_of ds c = Some k \<and> in_subtree ds j k"
          with par have "in_subtree ds j p" by auto
          moreover have "p < length ds" using p_len len by simp
          ultimately have "j \<le> p" using under_le [OF pf] by blast
          with pj False show ?thesis by simp
        qed
      next
        assume "in_subtree ds c j"
        moreover have "j < length ds" using j i by simp
        ultimately show ?thesis using under_le [OF pf] by blast
      qed
    qed
    moreover have "p \<le> j" if "c \<le> j" using that pc by simp
    ultimately have "(in_subtree ds j i \<and> c \<le> j) = (in_subtree ds j i \<and> p \<le> j)" by blast
    with k have "keys_of xs = rolled ds i j
                 \<union> (if in_subtree ds j i \<and> p \<le> j then {?kv} else {})" by simp
    with xs same show ?thesis by simp
  qed
  with shape' have "walk_inv ds i p ?cur'" by (simp add: walk_inv_def)
  with pxs cxs pc upi show ?thesis by blast
qed

lemma walk_up_correct:
  assumes pf: "parents_first ds" and i: "i < length ds"
  shows "c \<le> i \<Longrightarrow> in_subtree ds c i \<Longrightarrow> c \<le> fuel \<Longrightarrow> walk_inv ds i c cur \<Longrightarrow>
     \<exists>fin. walk_up fuel cur c (parent_of ds c) = Some (Inr fin) \<and> rolled_upto ds (Suc i) fin"
proof (induction fuel arbitrary: c cur)
  case 0
  then have c0: "c = 0" by simp
  have "parent_of ds c = None"
  proof (cases "parent_of ds c")
    case None
    then show ?thesis .
  next
    case (Some p)
    have "c < length ds" using c0 i by (cases ds) simp_all
    from parents_first_less [OF pf this Some] c0 show ?thesis by simp
  qed
  moreover from walk_inv_top [OF pf i "0.prems"(1,2) this "0.prems"(4)]
  have "rolled_upto ds (Suc i) cur" .
  ultimately show ?case by simp
next
  case (Suc fuel)
  show ?case
  proof (cases "parent_of ds c")
    case None
    from walk_inv_top [OF pf i Suc.prems(1,2) None Suc.prems(4)]
    have "rolled_upto ds (Suc i) cur" .
    with None show ?thesis by simp
  next
    case (Some p)
    from walk_inv_step [OF pf i Suc.prems(1,2) Some Suc.prems(4)]
    obtain pxs cxs where pxs: "i_treeItems (cur ! p) = Some pxs"
      and cxs: "i_treeItems (cur ! c) = Some cxs"
      and inv': "walk_inv ds i p
          (cur[p := (cur ! p)\<lparr>i_treeItems := Some (dedupePrimitiveArray (pxs @ cxs))\<rparr>])"
      and pc: "p < c" and upi: "in_subtree ds p i"
      by blast
    let ?cur' = "cur[p := (cur ! p)\<lparr>i_treeItems := Some (dedupePrimitiveArray (pxs @ cxs))\<rparr>]"
    have p_le: "p \<le> i" using pc Suc.prems(1) by simp
    have p_fuel: "p \<le> fuel" using pc Suc.prems(3) by simp
    from Suc.IH [OF p_le upi p_fuel inv']
    obtain fin where fin: "walk_up fuel ?cur' p (parent_of ds p) = Some (Inr fin)"
      and r: "rolled_upto ds (Suc i) fin" by blast
    have shape': "same_shape ds ?cur'" using inv' by (simp add: walk_inv_def)
    have "p < length ds" using p_le i by simp
    from same_shape_parent_of [OF shape' this]
    have par': "parent_of ?cur' p = parent_of ds p" .
    have "walk_up (Suc fuel) cur c (Some p) = walk_up fuel ?cur' p (parent_of ?cur' p)"
      using pxs cxs by (simp add: Let_def)
    with fin par' Some r show ?thesis by simp
  qed
qed

lemma rollup_item_walk:
  "rollup_item fuel ds i
     = walk_up fuel (ds[i := (ds ! i)\<lparr>i_treeItems := Some [i_value (ds ! i)]\<rparr>]) i
         (parent_of (ds[i := (ds ! i)\<lparr>i_treeItems := Some [i_value (ds ! i)]\<rparr>]) i)"
  by (simp add: rollup_item_def Let_def parent_of_def)

lemma rollup_item_correct:
  assumes pf: "parents_first ds" and i: "i < length ds" and fuel: "length ds \<le> fuel"
    and inv: "rolled_upto ds i cur"
  shows "\<exists>fin. rollup_item fuel cur i = Some (Inr fin) \<and> rolled_upto ds (Suc i) fin"
proof -
  let ?kv = "to_string (i_value (ds ! i))"
  let ?cur1 = "cur[i := (cur ! i)\<lparr>i_treeItems := Some [i_value (cur ! i)]\<rparr>]"
  have shape: "same_shape ds cur" using inv by (simp add: rolled_upto_def)
  then have len: "length cur = length ds" by (simp add: same_shape_def)
  have val: "i_value (cur ! i) = i_value (ds ! i)" using shape i by (simp add: same_shape_def)
  have shape1: "same_shape ds ?cur1" using shape by (rule same_shape_update)
  have "\<exists>xs. i_treeItems (?cur1 ! j) = Some xs
            \<and> keys_of xs = rolled ds i j
                 \<union> (if in_subtree ds j i \<and> i \<le> j then {?kv} else {})"
    if j: "j \<le> i" for j
  proof (cases "j = i")
    case True
    have "i_treeItems (?cur1 ! i) = Some [i_value (ds ! i)]"
      using i len val by simp
    moreover have "keys_of [i_value (ds ! i)]
        = rolled ds i i \<union> (if in_subtree ds i i \<and> i \<le> i then {?kv} else {})"
      using rolled_self_empty [OF pf, of i] i by (simp add: keys_of_def in_subtree.self)
    ultimately show ?thesis using True by blast
  next
    case False
    with j have ji: "j < i" by simp
    with inv obtain xs where "i_treeItems (cur ! j) = Some xs" "keys_of xs = rolled ds i j"
      unfolding rolled_upto_def by blast
    with False ji show ?thesis by simp
  qed
  with shape1 have w: "walk_inv ds i i ?cur1" by (simp add: walk_inv_def)
  have "i \<le> fuel" using i fuel by simp
  from walk_up_correct [OF pf i le_refl in_subtree.self this w]
  obtain fin where "walk_up fuel ?cur1 i (parent_of ds i) = Some (Inr fin)"
    and r: "rolled_upto ds (Suc i) fin" by blast
  moreover have "parent_of ?cur1 i = parent_of ds i"
    using shape1 i by (rule same_shape_parent_of)
  ultimately have "rollup_item fuel cur i = Some (Inr fin)"
    by (simp add: rollup_item_walk)
  with r show ?thesis by blast
qed

lemma rollup_loop_correct:
  assumes pf: "parents_first ds" and fuel: "length ds \<le> fuel"
  shows "k = length ds - i \<Longrightarrow> i \<le> length ds \<Longrightarrow> rolled_upto ds i cur \<Longrightarrow>
     \<exists>fin. rollup_loop fuel [i..<length ds] cur = Some (Inr fin) \<and> rolled_upto ds (length ds) fin"
proof (induction k arbitrary: i cur)
  case 0
  then have "i = length ds" by simp
  with "0.prems"(3) show ?case by simp
next
  case (Suc k)
  then have i: "i < length ds" by simp
  from rollup_item_correct [OF pf i fuel Suc.prems(3)]
  obtain mid where mid: "rollup_item fuel cur i = Some (Inr mid)"
    and r: "rolled_upto ds (Suc i) mid" by blast
  have "k = length ds - Suc i" using Suc.prems(1) by simp
  moreover have "Suc i \<le> length ds" using i by simp
  ultimately obtain fin where "rollup_loop fuel [Suc i..<length ds] mid = Some (Inr fin)"
    and "rolled_upto ds (length ds) fin"
    using Suc.IH [OF _ _ r] by blast
  moreover have "[i..<length ds] = i # [Suc i..<length ds]"
    using i by (simp add: upt_conv_Cons)
  ultimately show ?case using mid by simp
qed

text \<open>
  Claim C3, as amended. For a dataset with unique identifiers in which every row comes
  after its parent, the call returns without error (given fuel for as many iterations
  as there are rows), changes nothing but the roll-up lists, and leaves in every row a
  roll-up list that holds, up to string form, exactly the tree-column values of the row
  itself and of all of its descendants. For the chain 1, 2 below 1, 3 below 2, whose
  tree column is the identifier, the lists are \<open>[1, 2, 3]\<close>, \<open>[2, 3]\<close> and \<open>[3]\<close>.
\<close>

theorem rollup_descendants:
  "(parents_first ds \<and> length ds \<le> fuel \<longrightarrow>
      (\<exists>fin. modifyDatasetToAddTreeItemsMapping fuel ds = Some (Inr fin)
         \<and> same_shape ds fin
         \<and> (\<forall>j < length ds. \<exists>xs. i_treeItems (fin ! j) = Some xs
               \<and> keys_of xs = to_string ` {i_value (ds ! m) | m. m < length ds \<and> in_subtree ds j m})))
   \<and> modifyDatasetToAddTreeItemsMapping 3 chain_dataset
       = Some (Inr [(roll_row_of 1 ParentNull)\<lparr>i_treeItems := Some [JNum 1, JNum 2, JNum 3]\<rparr>,
                    (roll_row_of 2 (ParentId 1))\<lparr>i_treeItems := Some [JNum 2, JNum 3]\<rparr>,
                    (roll_row_of 3 (ParentId 2))\<lparr>i_treeItems := Some [JNum 3]\<rparr>])"
proof (intro conjI impI)
  assume a: "parents_first ds \<and> length ds \<le> fuel"
  have "rolled_upto ds 0 ds"
    by (simp add: rolled_upto_def same_shape_refl)
  with rollup_loop_correct [of ds fuel "length ds" 0 ds] a
  obtain fin where "rollup_loop fuel [0..<length ds] ds = Some (Inr fin)"
    and "rolled_upto ds (length ds) fin" by auto
  then show "\<exists>fin. modifyDatasetToAddTreeItemsMapping fuel ds = Some (Inr fin)
         \<and> same_shape ds fin
         \<and> (\<forall>j < length ds. \<exists>xs. i_treeItems (fin ! j) = Some xs
               \<and> keys_of xs = to_string ` {i_value (ds ! m) | m. m < length ds \<and> in_subtree ds j m})"
    by (auto simp: modifyDatasetToAddTreeItemsMapping_def rolled_upto_def rolled_def)
next
  show "modifyDatasetToAddTreeItemsMapping 3 chain_dataset
       = Some (Inr [(roll_row_of 1 ParentNull)\<lparr>i_treeItems := Some [JNum 1, JNum 2, JNum 3]\<rparr>,
                    (roll_row_of 2 (ParentId 1))\<lparr>i_treeItems := Some [JNum 2, JNum 3]\<rparr>,
                    (roll_row_of 3 (ParentId 2))\<lparr>i_treeItems := Some [JNum 3]\<rparr>])"
    by code_simp
qed

lemma parents_first_chain_dataset: "parents_first chain_dataset"
proof -
  have ids: "distinct (map i_id chain_dataset)"
    by (simp add: chain_dataset_def roll_row_of_def)
  have p0: "parent_of chain_dataset 0 = None"
    and p1: "parent_of chain_dataset 1 = Some 0"
    and p2: "parent_of chain_dataset 2 = Some 1"
    by code_simp+
  have "k < j" if "j < length chain_dataset" "parent_of chain_dataset j = Some k" for j k
  proof -
    from that(1) have "j = 0 \<or> j = 1 \<or> j = 2"
      by (auto simp: chain_dataset_def)
    with that(2) p0 p1 p2 show ?thesis by auto
  qed
  with ids show ?thesis by (simp add: parents_first_def)
qed

text \<open>The theorem at the chain.\<close>

theorem rollup_descendants_witness:
  "\<exists>fin. modifyDatasetToAddTreeItemsMapping 3 chain_dataset = Some (Inr fin)
      \<and> same_shape chain_dataset fin
      \<and> (\<exists>xs. i_treeItems (fin ! 0) = Some xs
            \<and> keys_of xs = to_string ` {i_value (chain_dataset ! m) | m.
                  m < length chain_dataset \<and> in_subtree chain_dataset 0 m})"
proof -
  have len: "length chain_dataset \<le> 3" "0 < length chain_dataset"
    by (simp_all add: chain_dataset_def)
  have pre: "parents_first chain_dataset \<and> length chain_dataset \<le> 3"
    using parents_first_chain_dataset len(1) by simp
  from rollup_descendants [of chain_dataset 3]
  have "parents_first chain_dataset \<and> length chain_dataset \<le> 3 \<longrightarrow>
      (\<exists>fin. modifyDatasetToAddTreeItemsMapping 3 chain_dataset = Some (Inr fin)
         \<and> same_shape chain_dataset fin
         \<and> (\<forall>j < length chain_dataset. \<exists>xs. i_treeItems (fin ! j) = Some xs
               \<and> keys_of xs = to_string ` {i_value (chain_dataset ! m) | m.
                     m < length chain_dataset \<and> in_subtree chain_dataset j m}))"
    by (rule conjunct1)
  from this [rule_format, OF pre]
  obtain fin where f1: "modifyDatasetToAddTreeItemsMapping 3 chain_dataset = Some (Inr fin)"
    and f2: "same_shape chain_dataset fin"
    and f3: "\<forall>j < length chain_dataset. \<exists>xs. i_treeItems (fin ! j) = Some xs
               \<and> keys_of xs = to_string ` {i_value (chain_dataset ! m) | m.
                     m < length chain_dataset \<and> in_subtree chain_dataset j m}"
    by (elim exE conjE)
  from f3 [rule_format, OF len(2)]
  obtain xs where "i_treeItems (fin ! 0) = Some xs
      \<and> keys_of xs = to_string ` {i_value (chain_dataset ! m) | m.
            m < length chain_dataset \<and> in_subtree chain_dataset 0 m}" ..
  then have "\<exists>xs. i_treeItems (fin ! 0) = Some xs
      \<and> keys_of xs = to_string ` {i_value (chain_dataset ! m) | m.
            m < length chain_dataset \<and> in_subtree chain_dataset 0 m}" ..
  with f1 f2 show ?thesis by (intro exI [of _ fin] conjI)
qed

text \<open>
  Claim C3 as stated fails when a child comes before its parent. On a first call the
  parent has no roll-up list yet and the call throws; on a later call nothing throws,
  but the list the child's value was merged into is reset when the loop reaches the
  parent, whose roll-up list ends as \<open>[1]\<close>, without its descendant 2.
\<close>

theorem rollup_child_first_counterexample:
  "modifyDatasetToAddTreeItemsMapping 2 child_first_dataset = Some (Inl TypeError)
   \<and> modifyDatasetToAddTreeItemsMapping 2 stale_child_first_dataset
       = Some (Inr [(roll_row_of 2 (ParentId 1))\<lparr>i_treeItems := Some [JNum 2]\<rparr>,
                    (roll_row_of 1 ParentNull)\<lparr>i_treeItems := Some [JNum 1]\<rparr>])"
  by code_simp

section \<open>Reading a forest out of the store\<close>

lemma children_setI: "h_children (h ! a) = Some cs \<Longrightarrow> c \<in> set cs \<Longrightarrow> c \<in> children_set h a"
  by (simp add: children_set_def)

lemma at_depth_in_region:
  assumes f: "forest h roots A par" and d: "at_depth h roots d a"
  shows "a \<in> A"
  using d
proof (induction rule: at_depth.induct)
  case (root r)
  with f show ?case by (simp add: forest_def)
next
  case (child d a cs c)
  from child.hyps(2,3) have "c \<in> children_set h a" by (rule children_setI)
  with f child.IH show ?case by (simp add: forest_def)
qed

lemma at_depth_parent:
  assumes f: "forest h roots A par" and d: "at_depth h roots d a"
  shows "(d = 0 \<longrightarrow> par a = None)
    \<and> (\<forall>e. d = Suc e \<longrightarrow> (\<exists>b. par a = Some b \<and> at_depth h roots e b))"
  using d
proof (cases rule: at_depth.cases)
  case root
  with f show ?thesis by (simp add: forest_def)
next
  case (child e b cs)
  from child(3,4) have "a \<in> children_set h b" by (rule children_setI)
  moreover have "b \<in> A" using f child(2) by (rule at_depth_in_region)
  ultimately have "par a = Some b" using f by (simp add: forest_def)
  with child(1,2) show ?thesis by simp
qed

lemma at_depth_unique:
  assumes f: "forest h roots A par"
  shows "at_depth h roots d a \<Longrightarrow> at_depth h roots e a \<Longrightarrow> d = e"
proof (induction d arbitrary: a e)
  case 0
  from at_depth_parent [OF f "0.prems"(1)] have none: "par a = None" by simp
  show ?case
  proof (cases e)
    case 0
    then show ?thesis by simp
  next
    case (Suc e')
    with at_depth_parent [OF f "0.prems"(2)] none show ?thesis by auto
  qed
next
  case (Suc d)
  from at_depth_parent [OF f Suc.prems(1)]
  obtain b where b: "par a = Some b" "at_depth h roots d b" by auto
  show ?case
  proof (cases e)
    case 0
    with at_depth_parent [OF f Suc.prems(2)] b show ?thesis by simp
  next
    case (Suc e')
    with at_depth_parent [OF f Suc.prems(2)]
    obtain b' where b': "par a = Some b'" "at_depth h roots e' b'" by auto
    with b have "at_depth h roots e' b" by simp
    from Suc.IH [OF b(2) this] Suc show ?thesis by simp
  qed
qed

lemma at_depth_ancestor:
  "at_depth h roots d a \<Longrightarrow> e \<le> d \<Longrightarrow> \<exists>b. at_depth h roots e b"
proof (induction rule: at_depth.induct)
  case (root r)
  then have "at_depth h roots e r" by (simp add: at_depth.root)
  then show ?case ..
next
  case (child d a cs c)
  show ?case
  proof (cases "e = Suc d")
    case True
    have "at_depth h roots (Suc d) c" using child.hyps by (rule at_depth.child)
    with True show ?thesis by blast
  next
    case False
    with child.prems have "e \<le> d" by simp
    then show ?thesis by (rule child.IH)
  qed
qed

lemma at_depth_bound:
  assumes f: "forest h roots A par" and d: "at_depth h roots d a"
  shows "d < card A"
proof -
  have "\<forall>e \<in> {..d}. \<exists>b. at_depth h roots e b"
    using at_depth_ancestor [OF d] by simp
  then obtain g where g: "\<forall>e \<in> {..d}. at_depth h roots e (g e)"
    by (rule bchoice [THEN exE])
  have inj: "inj_on g {..d}"
  proof (rule inj_onI)
    fix x y
    assume x: "x \<in> {..d}" and y: "y \<in> {..d}" and eq: "g x = g y"
    from g x have "at_depth h roots x (g x)" by blast
    moreover from g y eq have "at_depth h roots y (g x)" by simp
    ultimately show "x = y" by (rule at_depth_unique [OF f])
  qed
  have sub: "g ` {..d} \<subseteq> A"
    using g at_depth_in_region [OF f] by blast
  have fin: "finite A" using f by (simp add: forest_def)
  from card_inj_on_le [OF inj sub fin] show ?thesis by simp
qed

lemma trees_of_all:
  "\<forall>c \<in> set cs. \<exists>t. tree_of n h c = Some t \<Longrightarrow> \<exists>ts. trees_of n h cs = Some ts"
proof (induction cs)
  case Nil
  then show ?case by simp
next
  case (Cons c cs)
  then obtain t where t: "tree_of n h c = Some t" by auto
  from Cons obtain ts where "trees_of n h cs = Some ts" by auto
  with t show ?case by simp
qed

lemma tree_of_succeeds:
  assumes f: "forest h roots A par"
  shows "at_depth h roots d a \<Longrightarrow> card A \<le> d + Suc m \<Longrightarrow> \<exists>t. tree_of (Suc m) h a = Some t"
proof (induction m arbitrary: d a)
  case 0
  show ?case
  proof (cases "h_children (h ! a)")
    case None
    then show ?thesis by simp
  next
    case (Some cs)
    have "cs = []"
    proof (cases cs)
      case Nil
      then show ?thesis .
    next
      case (Cons c cs')
      then have "c \<in> set cs" by simp
      with "0.prems"(1) Some have "at_depth h roots (Suc d) c" by (rule at_depth.child)
      from at_depth_bound [OF f this] "0.prems"(2) show ?thesis by simp
    qed
    with Some show ?thesis by simp
  qed
next
  case (Suc m)
  show ?case
  proof (cases "h_children (h ! a)")
    case None
    then show ?thesis by simp
  next
    case (Some cs)
    have "\<forall>c \<in> set cs. \<exists>t. tree_of (Suc m) h c = Some t"
    proof
      fix c
      assume "c \<in> set cs"
      with Suc.prems(1) Some have "at_depth h roots (Suc d) c" by (rule at_depth.child)
      moreover have "card A \<le> Suc d + Suc m" using Suc.prems(2) by simp
      ultimately show "\<exists>t. tree_of (Suc m) h c = Some t" by (rule Suc.IH)
    qed
    from trees_of_all [OF this] obtain ts where "trees_of (Suc m) h cs = Some ts" ..
    with Some show ?thesis by simp
  qed
qed

lemma trees_of_roots_succeed:
  assumes f: "forest h roots A par" and fuel: "card A \<le> Suc m"
  shows "\<exists>ts. trees_of (Suc m) h roots = Some ts"
proof (rule trees_of_all, rule ballI)
  fix r
  assume "r \<in> set roots"
  then have "at_depth h roots 0 r" by (rule at_depth.root)
  moreover have "card A \<le> 0 + Suc m" using fuel by simp
  ultimately show "\<exists>t. tree_of (Suc m) h r = Some t" by (rule tree_of_succeeds [OF f])
qed

text \<open>The identifiers of the value read are the identifiers of the reachable objects.\<close>

lemma reach_Nil: "reach h [] = {}"
proof -
  have "False" if "a \<in> reach h []" for a
    using that by (induction rule: reach.induct) simp_all
  then show ?thesis by blast
qed

lemma reach_mono:
  assumes "set xs \<subseteq> set ys" and "a \<in> reach h xs"
  shows "a \<in> reach h ys"
  using assms(2)
proof (induction rule: reach.induct)
  case (root r)
  with assms(1) show ?case by (auto intro: reach.root)
next
  case (child a cs c)
  from child.IH child.hyps(2,3) show ?case by (rule reach.child)
qed

lemma reach_split:
  assumes "a \<in> reach h (xs @ ys)"
  shows "a \<in> reach h xs \<or> a \<in> reach h ys"
  using assms
proof (induction rule: reach.induct)
  case (root r)
  then show ?case by (auto intro: reach.root)
next
  case (child a cs c)
  from child.IH show ?case
  proof
    assume "a \<in> reach h xs"
    from this child.hyps(2,3) have "c \<in> reach h xs" by (rule reach.child)
    then show ?thesis ..
  next
    assume "a \<in> reach h ys"
    from this child.hyps(2,3) have "c \<in> reach h ys" by (rule reach.child)
    then show ?thesis ..
  qed
qed

lemma reach_append: "reach h (xs @ ys) = reach h xs \<union> reach h ys"
proof (intro set_eqI iffI)
  fix a
  assume "a \<in> reach h (xs @ ys)"
  then show "a \<in> reach h xs \<union> reach h ys" using reach_split by blast
next
  fix a
  assume "a \<in> reach h xs \<union> reach h ys"
  then show "a \<in> reach h (xs @ ys)"
    using reach_mono [of xs "xs @ ys" a h] reach_mono [of ys "xs @ ys" a h] by auto
qed

lemma reach_Cons: "reach h (x # xs) = reach h [x] \<union> reach h xs"
  using reach_append [of h "[x]" xs] by simp

lemma reach_children:
  assumes "a \<in> reach h cs" and "h_children (h ! x) = Some cs"
  shows "a \<in> reach h [x]"
  using assms(1)
proof (induction rule: reach.induct)
  case (root r)
  have "x \<in> reach h [x]" by (simp add: reach.root)
  from this assms(2) root show ?case by (rule reach.child)
next
  case (child a ds c)
  from child.IH child.hyps(2,3) show ?case by (rule reach.child)
qed

lemma reach_single_sub:
  assumes "a \<in> reach h [x]"
  shows "a = x \<or> (\<exists>cs. h_children (h ! x) = Some cs \<and> a \<in> reach h cs)"
  using assms
proof (induction rule: reach.induct)
  case (root r)
  then show ?case by simp
next
  case (child a ds c)
  from child.IH show ?case
  proof
    assume "a = x"
    with child.hyps(2,3) have "h_children (h ! x) = Some ds \<and> c \<in> reach h ds"
      by (simp add: reach.root)
    then show ?thesis by blast
  next
    assume "\<exists>cs. h_children (h ! x) = Some cs \<and> a \<in> reach h cs"
    then obtain cs where cs: "h_children (h ! x) = Some cs" "a \<in> reach h cs" by blast
    from cs(2) child.hyps(2,3) have "c \<in> reach h cs" by (rule reach.child)
    with cs(1) show ?thesis by blast
  qed
qed

lemma reach_single_None: "h_children (h ! x) = None \<Longrightarrow> reach h [x] = {x}"
  using reach_single_sub [of _ h x] by (auto intro: reach.root)

lemma reach_single_Some:
  "h_children (h ! x) = Some cs \<Longrightarrow> reach h [x] = insert x (reach h cs)"
  using reach_single_sub [of _ h x] reach_children [of _ h cs x]
  by (auto intro: reach.root)

lemma tree_ids_reach:
  "tree_of n h a = Some t \<Longrightarrow> set (node_ids t) = obj_id h ` reach h [a]"
  "trees_of n h as = Some ts \<Longrightarrow> set (concat (map node_ids ts)) = obj_id h ` reach h as"
proof (induction n h a and n h as arbitrary: t and ts rule: tree_of_trees_of.induct)
  case (1 h a)
  then show ?case by simp
next
  case (2 n h a)
  show ?case
  proof (cases "h_children (h ! a)")
    case None
    with 2(2) have "t = Node (h_row (h ! a)) None" by simp
    then show ?thesis
      using reach_single_None [OF None] by (simp add: obj_id_def)
  next
    case (Some cs)
    with 2(2) obtain ts where ts: "trees_of n h cs = Some ts"
      and t: "t = Node (h_row (h ! a)) (Some ts)"
      by (auto split: option.splits)
    from 2(1) [OF Some ts] have "set (concat (map node_ids ts)) = obj_id h ` reach h cs" .
    then show ?thesis
      using t reach_single_Some [OF Some] by (simp add: obj_id_def)
  qed
next
  case (3 n h)
  then show ?case by (simp add: reach_Nil)
next
  case (4 n h c cs)
  from 4(3) obtain t ts' where t: "tree_of n h c = Some t"
    and ts': "trees_of n h cs = Some ts'" and ts: "ts = t # ts'"
    by (auto split: option.splits)
  from 4(1) [OF t] have a: "set (node_ids t) = obj_id h ` reach h [c]" .
  from 4(2) [OF t ts'] have b: "set (concat (map node_ids ts')) = obj_id h ` reach h cs" .
  show ?case
    using a b ts reach_Cons [of h c cs] by (simp add: image_Un)
qed

section \<open>What the connecting loop builds\<close>

lemma children_set_push:
  "p < length h \<Longrightarrow>
     children_set (push_child p a h) b
       = (if b = p then insert a (children_set h p) else children_set h b)"
  by (cases "h_children (h ! p)") (auto simp: children_set_def push_child_def)

lemma children_set_delete: "children_set (delete_bookkeeping a h) b = children_set h b"
proof (cases "a < length h \<and> b = a")
  case True
  then show ?thesis by (simp add: children_set_def delete_bookkeeping_def)
next
  case False
  then have "delete_bookkeeping a h ! b = h ! b"
    by (cases "a < length h") (simp_all add: delete_bookkeeping_def list_update_beyond)
  then show ?thesis by (simp add: children_set_def)
qed

lemma keyed_insert_Some:
  "all key = Some a \<Longrightarrow>
     {c. \<exists>k \<in> insert key K. all k = Some c \<and> P c}
       = {c. \<exists>k \<in> K. all k = Some c \<and> P c} \<union> (if P a then {a} else {})"
  by auto

lemma keyed_insert_None:
  "all key = None \<Longrightarrow>
     {c. \<exists>k \<in> insert key K. all k = Some c \<and> P c} = {c. \<exists>k \<in> K. all k = Some c \<and> P c}"
  by auto

lemma linkedI:
  assumes "\<And>b. b \<in> ran all \<Longrightarrow> children_set h b
          = {c. \<exists>k \<in> K. all k = Some c \<and> parent_obj all h1 c = Some b}"
    and "set roots = {c. \<exists>k \<in> K. all k = Some c \<and> parentless (h_row (h1 ! c))}"
  shows "linked all h1 K (roots, h)"
  using assms by (simp add: linked_def)

lemma linkedD:
  assumes "linked all h1 K (roots, h)"
  shows "b \<in> ran all \<Longrightarrow> children_set h b
          = {c. \<exists>k \<in> K. all k = Some c \<and> parent_obj all h1 c = Some b}"
    and "set roots = {c. \<exists>k \<in> K. all k = Some c \<and> parentless (h_row (h1 ! c))}"
  using assms by (simp_all add: linked_def)

lemma connect_linked:
  assumes inv: "conn_inv all h1 acc" and bound: "\<forall>a \<in> ran all. a < length h1"
    and lnk: "linked all h1 K acc"
  shows "linked all h1 (insert key K) (connect all acc key)"
proof -
  obtain roots h where acc: "acc = (roots, h)" by (cases acc)
  have lnk': "linked all h1 K (roots, h)" using lnk acc by simp
  note old = linkedD [OF lnk']
  have len: "length h = length h1" using inv acc by (simp add: conn_inv_def)
  have par_same: "r_parent (h_row (h ! a)) = r_parent (h_row (h1 ! a))" for a
    using inv acc by (simp add: conn_inv_def)
  show ?thesis
  proof (cases rule: connect_cases [of all key roots h])
    case skip
    have "linked all h1 (insert key K) (roots, h)"
    proof (rule linkedI)
      fix b
      assume "b \<in> ran all"
      then show "children_set h b
          = {c. \<exists>k \<in> insert key K. all k = Some c \<and> parent_obj all h1 c = Some b}"
        using old(1) [of b] by (simp only: keyed_insert_None [of all key, OF skip(1)])
    next
      show "set roots = {c. \<exists>k \<in> insert key K. all k = Some c \<and> parentless (h_row (h1 ! c))}"
        using old(2) by (simp only: keyed_insert_None [of all key, OF skip(1)])
    qed
    with skip acc show ?thesis by simp
  next
    case (root a)
    have pl: "parentless (h_row (h1 ! a))"
      using root(2) par_same [of a] by (simp add: parentless_def)
    then have po: "parent_obj all h1 a = None"
      by (auto simp: parent_obj_def parentless_def)
    have "linked all h1 (insert key K) (roots @ [a], delete_bookkeeping a h)"
    proof (rule linkedI)
      fix b
      assume "b \<in> ran all"
      then show "children_set (delete_bookkeeping a h) b
          = {c. \<exists>k \<in> insert key K. all k = Some c \<and> parent_obj all h1 c = Some b}"
        using old(1) [of b] po
        by (simp only: keyed_insert_Some [of all key, OF root(1)] children_set_delete) simp
    next
      show "set (roots @ [a])
          = {c. \<exists>k \<in> insert key K. all k = Some c \<and> parentless (h_row (h1 ! c))}"
        using old(2) pl by (simp only: keyed_insert_Some [of all key, OF root(1)]) simp
    qed
    with root acc show ?thesis by simp
  next
    case (dangling a parent)
    have npl: "\<not> parentless (h_row (h1 ! a))"
      using dangling(2) par_same [of a] by (simp add: parentless_def)
    have po: "parent_obj all h1 a = None"
      using dangling(2,3) par_same [of a] by (simp add: parent_obj_def)
    have "linked all h1 (insert key K) (roots, delete_bookkeeping a h)"
    proof (rule linkedI)
      fix b
      assume "b \<in> ran all"
      then show "children_set (delete_bookkeeping a h) b
          = {c. \<exists>k \<in> insert key K. all k = Some c \<and> parent_obj all h1 c = Some b}"
        using old(1) [of b] po
        by (simp only: keyed_insert_Some [of all key, OF dangling(1)] children_set_delete) simp
    next
      show "set roots
          = {c. \<exists>k \<in> insert key K. all k = Some c \<and> parentless (h_row (h1 ! c))}"
        using old(2) npl by (simp only: keyed_insert_Some [of all key, OF dangling(1)]) simp
    qed
    with dangling acc show ?thesis by simp
  next
    case (child a parent p)
    have npl: "\<not> parentless (h_row (h1 ! a))"
      using child(2) par_same [of a] by (simp add: parentless_def)
    have po: "parent_obj all h1 a = Some p"
      using child(2,3) par_same [of a] by (simp add: parent_obj_def)
    have "p \<in> ran all" using child(3) by (rule in_ran)
    then have p_len: "p < length h" using bound len by simp
    have "linked all h1 (insert key K) (roots, delete_bookkeeping a (push_child p a h))"
    proof (rule linkedI)
      fix b
      assume b: "b \<in> ran all"
      have "children_set (delete_bookkeeping a (push_child p a h)) b
          = (if b = p then insert a (children_set h p) else children_set h b)"
        by (simp only: children_set_delete children_set_push [OF p_len])
      also have "\<dots> = children_set h b \<union> (if parent_obj all h1 a = Some b then {a} else {})"
        using po by auto
      also have "\<dots> = {c. \<exists>k \<in> insert key K. all k = Some c \<and> parent_obj all h1 c = Some b}"
        using old(1) [OF b] by (simp only: keyed_insert_Some [of all key, OF child(1)])
      finally show "children_set (delete_bookkeeping a (push_child p a h)) b
          = {c. \<exists>k \<in> insert key K. all k = Some c \<and> parent_obj all h1 c = Some b}" .
    next
      show "set roots
          = {c. \<exists>k \<in> insert key K. all k = Some c \<and> parentless (h_row (h1 ! c))}"
        using old(2) npl by (simp only: keyed_insert_Some [of all key, OF child(1)]) simp
    qed
    with child acc show ?thesis by simp
  qed
qed

lemma foldl_connect_linked:
  assumes bound: "\<forall>a \<in> ran all. a < length h1"
  shows "conn_inv all h1 acc \<Longrightarrow> linked all h1 K acc
     \<Longrightarrow> linked all h1 (K \<union> set keys) (foldl (connect all) acc keys)"
proof (induction keys arbitrary: acc K)
  case Nil
  then show ?case by simp
next
  case (Cons key keys)
  have i: "conn_inv all h1 (connect all acc key)"
    using Cons.prems(1) bound by (rule connect_inv)
  have l: "linked all h1 (insert key K) (connect all acc key)"
    using Cons.prems(1) bound Cons.prems(2) by (rule connect_linked)
  from Cons.IH [OF i l] show ?case by simp
qed

lemma set_object_keys: "set (object_keys ids) = set ids"
  by (auto simp: object_keys_def)

lemma lookup_rel:
  "map (\<lambda>a. h_row (h1 ! a)) as' = map (\<lambda>a. h_row (h ! a)) as \<Longrightarrow>
   (\<And>k. map_option (\<lambda>a. h_row (h1 ! a)) (m1 k) = m k) \<Longrightarrow>
   map_option (\<lambda>a. h_row (h1 ! a))
     (foldl (\<lambda>m a. m(r_id (h_row (h1 ! a)) \<mapsto> a)) m1 as' k)
   = foldl (\<lambda>m a. m(r_id (h_row (h ! a)) \<mapsto> h_row (h ! a))) m as k"
proof (induction as' arbitrary: as m1 m)
  case Nil
  then show ?case by simp
next
  case (Cons c' cs')
  from Cons.prems(1) obtain c cs where as: "as = c # cs"
    and hd: "h_row (h1 ! c') = h_row (h ! c)"
    and tl: "map (\<lambda>a. h_row (h1 ! a)) cs' = map (\<lambda>a. h_row (h ! a)) cs"
    by (cases as) auto
  have step: "map_option (\<lambda>a. h_row (h1 ! a)) ((m1(r_id (h_row (h1 ! c')) \<mapsto> c')) k)
      = (m(r_id (h_row (h ! c)) \<mapsto> h_row (h ! c))) k" for k
    using Cons.prems(2) [of k] hd by simp
  from Cons.IH [OF tl step] show ?case
    using as by simp
qed

lemma build_all_lookup:
  assumes "map (\<lambda>a. h_row (h1 ! a)) inputArray = map (\<lambda>a. h_row (h ! a)) flatArray"
  shows "map_option (\<lambda>a. h_row (h1 ! a)) (build_all h1 inputArray k) = flat_lookup h flatArray k"
  unfolding build_all_def flat_lookup_def
  by (rule lookup_rel [OF assms]) simp

section \<open>The round trip in general\<close>

lemma flat_ids:
  "set (map r_id (convertHierarchicalViewToFlatArray ts)) = set (concat (map node_ids ts))"
  "distinct (map r_id (convertHierarchicalViewToFlatArray ts))"
  by (simp_all add: convertHierarchicalViewToFlatArray_def
      convertHierarchicalViewToFlatArrayByOutputArrayReference_def flatten_into_ids
      set_foldl_add_new distinct_foldl_add_new)

lemma round_trip_general:
  assumes valid: "\<forall>a \<in> set flatArray. a < length h \<and> h_children (h ! a) = None"
    and fuel: "length flatArray \<le> Suc n"
  shows "\<exists>roots h' out.
      convertParentChildFlatArrayToHierarchicalView (Suc n) h flatArray = Some (roots, h')
      \<and> obj_id h' ` reach h' roots = {k. rooted (flat_lookup h flatArray) k}
      \<and> round_trip (Suc n) h flatArray = Some out
      \<and> set (map r_id out) = {k. rooted (flat_lookup h flatArray) k}
      \<and> distinct (map r_id out)"
proof -
  let ?lk = "flat_lookup h flatArray"
  from convert_total [OF valid, of n] obtain roots h'
    where res: "convertParentChildFlatArrayToHierarchicalView (Suc n) h flatArray = Some (roots, h')"
    by blast
  from res obtain inputArray h1
    where ea: "extend_array (Suc n) h flatArray = Some (inputArray, h1)"
      and loop: "foldl (connect (build_all h1 inputArray)) ([], h1)
           (object_keys (map (\<lambda>a. r_id (h_row (h1 ! a))) inputArray)) = (roots, h')"
    by (rule convert_Some)
  define all where "all = build_all h1 inputArray"
  define par where "par = parent_obj all h1"
  have valid': "\<forall>a \<in> set flatArray. a < length h" using valid by simp
  have childless: "\<forall>a \<in> set flatArray. h_children (h ! a) = None" using valid by simp
  note rows = extend_array_rows [OF ea valid']
  have len: "length inputArray = length flatArray"
    using extend_extends(2) [OF ea] by simp
  have in_store: "\<forall>x \<in> set inputArray. x < length h1"
    using ea valid' by (rule extend_array_valid)
  have copies_childless: "\<forall>a \<in> set inputArray. h_children (h1 ! a) = None"
    using rows childless by blast
  have row_eq: "map (\<lambda>a. h_row (h1 ! a)) inputArray = map (\<lambda>a. h_row (h ! a)) flatArray"
    using rows by simp
  have ran_sub: "ran all \<subseteq> set inputArray"
    unfolding all_def by (rule ran_build_all)
  have bound: "\<forall>a \<in> ran all. a < length h1"
    using ran_sub in_store by auto
  have all_id: "all k = Some a \<Longrightarrow> obj_id h1 a = k" for k a
    unfolding all_def obj_id_def using build_all_Some [of h1 inputArray k a] by simp
  have lk: "map_option (\<lambda>a. h_row (h1 ! a)) (all k) = ?lk k" for k
    unfolding all_def using row_eq by (rule build_all_lookup)
  have keys: "set (object_keys (map (\<lambda>a. r_id (h_row (h1 ! a))) inputArray)) = dom all"
    by (simp add: set_object_keys all_def dom_build_all)
  have "conn_inv all h1 (foldl (connect all) ([], h1)
           (object_keys (map (\<lambda>a. r_id (h_row (h1 ! a))) inputArray)))"
    using conn_inv_init bound by (rule foldl_connect_inv)
  then have inv: "conn_inv all h1 (roots, h')"
    using loop by (simp add: all_def)
  have init: "linked all h1 {} ([], h1)"
  proof (rule linkedI)
    fix b
    assume "b \<in> ran all"
    with ran_sub copies_childless have "h_children (h1 ! b) = None" by blast
    then show "children_set h1 b
        = {c. \<exists>k \<in> {}. all k = Some c \<and> parent_obj all h1 c = Some b}"
      by (simp add: children_set_def)
  next
    show "set [] = {c. \<exists>k \<in> {}. all k = Some c \<and> parentless (h_row (h1 ! c))}" by simp
  qed
  have "linked all h1 ({} \<union> set (object_keys (map (\<lambda>a. r_id (h_row (h1 ! a))) inputArray)))
      (foldl (connect all) ([], h1) (object_keys (map (\<lambda>a. r_id (h_row (h1 ! a))) inputArray)))"
    using bound conn_inv_init init by (rule foldl_connect_linked)
  then have lnk: "linked all h1 (dom all) (roots, h')"
    using loop keys by (simp add: all_def)
  have kids: "children_set h' b = {c. \<exists>k. all k = Some c \<and> par c = Some b}"
    if "b \<in> ran all" for b
    using linkedD(1) [OF lnk that] by (auto simp: par_def)
  have rts: "set roots = {c. \<exists>k. all k = Some c \<and> parentless (h_row (h1 ! c))}"
    using linkedD(2) [OF lnk] by auto
  have id_same: "obj_id h' a = obj_id h1 a" for a
    using inv by (simp add: conn_inv_def obj_id_def)
  \<comment> \<open>the objects of the lookup are a forest under the roots\<close>
  have forest: "forest h' roots (ran all) par"
    unfolding forest_def
  proof (intro conjI ballI)
    show "finite (ran all)" using ran_sub by (rule finite_subset) simp
  next
    fix r
    assume "r \<in> set roots"
    with rts obtain k where k: "all k = Some r" and pl: "parentless (h_row (h1 ! r))" by blast
    from k show "r \<in> ran all" by (rule in_ran)
    from pl show "par r = None"
      by (auto simp: par_def parent_obj_def parentless_def)
  next
    fix a c
    assume "a \<in> ran all" and "c \<in> children_set h' a"
    with kids obtain k where k: "all k = Some c" and p: "par c = Some a" by blast
    from k show "c \<in> ran all" by (rule in_ran)
    from p show "par c = Some a" .
  qed
  have "card (ran all) \<le> card (set inputArray)"
    using ran_sub by (intro card_mono) simp_all
  also have "\<dots> \<le> length inputArray" by (rule card_length)
  finally have "card (ran all) \<le> Suc n" using len fuel by simp
  from trees_of_roots_succeed [OF forest this]
  obtain ts where ts: "trees_of (Suc n) h' roots = Some ts" ..
  from tree_ids_reach(2) [OF ts]
  have ids_ts: "set (concat (map node_ids ts)) = obj_id h' ` reach h' roots" .
  \<comment> \<open>a reachable object stands for a rooted identifier\<close>
  have sub: "a \<in> ran all \<and> rooted ?lk (obj_id h1 a)" if "a \<in> reach h' roots" for a
    using that
  proof (induction rule: reach.induct)
    case (root r)
    with rts obtain k where k: "all k = Some r" and pl: "parentless (h_row (h1 ! r))" by blast
    from lk [of k] k have "?lk k = Some (h_row (h1 ! r))" by simp
    from this pl have "rooted ?lk k" by (rule rooted.top)
    with k all_id [OF k] show ?case by (simp add: in_ran)
  next
    case (child a cs c)
    then have a: "a \<in> ran all" and ra: "rooted ?lk (obj_id h1 a)" by simp_all
    from child.hyps(2,3) have "c \<in> children_set h' a" by (rule children_setI)
    with kids [OF a] obtain k where k: "all k = Some c" and p: "par c = Some a" by blast
    from p obtain q where q: "r_parent (h_row (h1 ! c)) = ParentId q" and aq: "all q = Some a"
      by (auto simp: par_def parent_obj_def split: parent_ref.splits)
    from all_id [OF aq] ra have "rooted ?lk q" by simp
    moreover from lk [of k] k have "?lk k = Some (h_row (h1 ! c))" by simp
    ultimately have "rooted ?lk k" using q by (simp add: rooted.sub)
    with k all_id [OF k] show ?case by (simp add: in_ran)
  qed
  \<comment> \<open>a rooted identifier stands for a reachable object\<close>
  have sup: "\<exists>a. all k = Some a \<and> a \<in> reach h' roots" if "rooted ?lk k" for k
    using that
  proof (induction rule: rooted.induct)
    case (top k r)
    from lk [of k] top(1) obtain a where a: "all k = Some a" and r: "h_row (h1 ! a) = r"
      by auto
    with top(2) rts have "a \<in> set roots" by blast
    then have "a \<in> reach h' roots" by (rule reach.root)
    with a show ?case by blast
  next
    case (sub k r p)
    from sub.IH obtain b where b: "all p = Some b" and rb: "b \<in> reach h' roots" by blast
    from lk [of k] sub(1) obtain a where a: "all k = Some a" and r: "h_row (h1 ! a) = r"
      by auto
    have "par a = Some b"
      using r sub(2) b by (simp add: par_def parent_obj_def)
    moreover have "b \<in> ran all" using b by (rule in_ran)
    ultimately have "a \<in> children_set h' b" using kids a by blast
    then obtain cs where "h_children (h' ! b) = Some cs" and "a \<in> set cs"
      by (auto simp: children_set_def split: option.splits)
    with rb have "a \<in> reach h' roots" by (rule reach.child)
    with a show ?case by blast
  qed
  have reach_ids: "obj_id h' ` reach h' roots = {k. rooted ?lk k}"
  proof (intro set_eqI iffI)
    fix k
    assume "k \<in> obj_id h' ` reach h' roots"
    then obtain a where "a \<in> reach h' roots" and "k = obj_id h' a" by blast
    with sub [of a] id_same [of a] show "k \<in> {k. rooted ?lk k}" by simp
  next
    fix k
    assume "k \<in> {k. rooted ?lk k}"
    then have "rooted ?lk k" by simp
    from sup [OF this] obtain a where a: "all k = Some a" and r: "a \<in> reach h' roots" by blast
    from all_id [OF a] id_same [of a] have "obj_id h' a = k" by simp
    with r show "k \<in> obj_id h' ` reach h' roots" by blast
  qed
  have rt: "round_trip (Suc n) h flatArray = Some (convertHierarchicalViewToFlatArray ts)"
    using res ts by (simp add: round_trip_def)
  have "set (map r_id (convertHierarchicalViewToFlatArray ts)) = {k. rooted ?lk k}"
    using flat_ids(1) [of ts] ids_ts reach_ids by simp
  with res reach_ids rt flat_ids(2) [of ts] show ?thesis by blast
qed

lemma rooted_in_dom: "rooted lk k \<Longrightarrow> k \<in> dom lk"
  by (erule rooted.cases) auto

lemma dom_flat_lookup: "dom (flat_lookup h flatArray) = (\<lambda>a. r_id (h_row (h ! a))) ` set flatArray"
proof -
  have "dom (foldl (\<lambda>m a. m(r_id (h_row (h ! a)) \<mapsto> h_row (h ! a))) m as)
      = dom m \<union> (\<lambda>a. r_id (h_row (h ! a))) ` set as" for m as
    by (induction as arbitrary: m) auto
  then show ?thesis by (simp add: flat_lookup_def)
qed

text \<open>
  Claim C1, as amended. For the flat array \<open>[{id: 1}, {id: 2, parentId: 1}, {id: 3,
  parentId: 2}]\<close> the round trip yields the three identifiers in order with the tree
  levels 0, 1 and 2; the first two rows have the has-children flag set to true and the
  third row has no such flag (it is missing, not false). In general, for an array of
  rows without nested children and fuel for as many levels as there are rows, both
  conversions return, and the identifiers reachable in the hierarchical form, which are
  exactly the identifiers of the flat output (each once), are the rooted identifiers of
  the flat input: those whose chain of parent references ends at a row without parent.
  They are all the identifiers of the flat input when every row is rooted.
\<close>

theorem round_trip_identifiers:
  "round_trip 3 chain_rows [0, 1, 2]
     = Some [\<lparr> r_id = 1, r_parent = ParentAbsent, r_treeLevel = Some 0,
                r_hasChildren = Some True, r_parentId = ParentNull \<rparr>,
             \<lparr> r_id = 2, r_parent = ParentId 1, r_treeLevel = Some 1,
                r_hasChildren = Some True, r_parentId = ParentId 1 \<rparr>,
             \<lparr> r_id = 3, r_parent = ParentId 2, r_treeLevel = Some 2,
                r_hasChildren = None, r_parentId = ParentId 2 \<rparr>]
   \<and> ((\<forall>a \<in> set flatArray. a < length h \<and> h_children (h ! a) = None)
        \<and> length flatArray \<le> Suc n \<longrightarrow>
        (\<exists>roots h' out.
           convertParentChildFlatArrayToHierarchicalView (Suc n) h flatArray = Some (roots, h')
           \<and> obj_id h' ` reach h' roots = {k. rooted (flat_lookup h flatArray) k}
           \<and> round_trip (Suc n) h flatArray = Some out
           \<and> set (map r_id out) = {k. rooted (flat_lookup h flatArray) k}
           \<and> distinct (map r_id out)
           \<and> ((\<forall>a \<in> set flatArray. rooted (flat_lookup h flatArray) (obj_id h a))
                 \<longrightarrow> set (map r_id out) = obj_id h ` set flatArray)))"
proof (intro conjI impI)
  show "round_trip 3 chain_rows [0, 1, 2]
     = Some [\<lparr> r_id = 1, r_parent = ParentAbsent, r_treeLevel = Some 0,
                r_hasChildren = Some True, r_parentId = ParentNull \<rparr>,
             \<lparr> r_id = 2, r_parent = ParentId 1, r_treeLevel = Some 1,
                r_hasChildren = Some True, r_parentId = ParentId 1 \<rparr>,
             \<lparr> r_id = 3, r_parent = ParentId 2, r_treeLevel = Some 2,
                r_hasChildren = None, r_parentId = ParentId 2 \<rparr>]"
    by code_simp
next
  let ?lk = "flat_lookup h flatArray"
  assume a: "(\<forall>a \<in> set flatArray. a < length h \<and> h_children (h ! a) = None)
        \<and> length flatArray \<le> Suc n"
  then have valid: "\<forall>a \<in> set flatArray. a < length h \<and> h_children (h ! a) = None"
    and fuel: "length flatArray \<le> Suc n" by simp_all
  from round_trip_general [OF valid fuel] obtain roots h' out
    where 1: "convertParentChildFlatArrayToHierarchicalView (Suc n) h flatArray = Some (roots, h')"
      and 2: "obj_id h' ` reach h' roots = {k. rooted ?lk k}"
      and 3: "round_trip (Suc n) h flatArray = Some out"
      and 4: "set (map r_id out) = {k. rooted ?lk k}"
      and 5: "distinct (map r_id out)"
    by (elim exE conjE)
  have id_fun: "obj_id h = (\<lambda>a. r_id (h_row (h ! a)))"
    by (rule ext) (simp add: obj_id_def)
  have 6: "(\<forall>a \<in> set flatArray. rooted ?lk (obj_id h a))
      \<longrightarrow> set (map r_id out) = obj_id h ` set flatArray"
  proof
    assume all_rooted: "\<forall>a \<in> set flatArray. rooted ?lk (obj_id h a)"
    have "{k. rooted ?lk k} = obj_id h ` set flatArray"
    proof (intro set_eqI iffI)
      fix k
      assume "k \<in> {k. rooted ?lk k}"
      then have "rooted ?lk k" by simp
      then have "k \<in> dom ?lk" by (rule rooted_in_dom)
      then show "k \<in> obj_id h ` set flatArray"
        by (simp only: dom_flat_lookup id_fun)
    next
      fix k
      assume "k \<in> obj_id h ` set flatArray"
      then obtain a where "a \<in> set flatArray" and "k = obj_id h a" by (rule imageE)
      with all_rooted show "k \<in> {k. rooted ?lk k}" by simp
    qed
    with 4 show "set (map r_id out) = obj_id h ` set flatArray" by simp
  qed
  show "\<exists>roots h' out.
           convertParentChildFlatArrayToHierarchicalView (Suc n) h flatArray = Some (roots, h')
           \<and> obj_id h' ` reach h' roots = {k. rooted ?lk k}
           \<and> round_trip (Suc n) h flatArray = Some out
           \<and> set (map r_id out) = {k. rooted ?lk k}
           \<and> distinct (map r_id out)
           \<and> ((\<forall>a \<in> set flatArray. rooted ?lk (obj_id h a))
                 \<longrightarrow> set (map r_id out) = obj_id h ` set flatArray)"
    using 1 2 3 4 5 6 by (intro exI [of _ roots] exI [of _ h'] exI [of _ out] conjI)
qed

text \<open>
  The theorem at the chain: the three rows are without nested children, the fuel 3 is
  enough, and the rooted identifiers are 1, 2 and 3.
\<close>

theorem round_trip_identifiers_witness:
  "{k. rooted (flat_lookup chain_rows [0, 1, 2]) k} = {1, 2, 3}
   \<and> (\<exists>roots h'. convertParentChildFlatArrayToHierarchicalView 3 chain_rows [0, 1, 2]
          = Some (roots, h')
        \<and> obj_id h' ` reach h' roots = {1, 2, 3})"
proof -
  let ?out = "[\<lparr> r_id = 1, r_parent = ParentAbsent, r_treeLevel = Some 0,
                r_hasChildren = Some True, r_parentId = ParentNull \<rparr>,
             \<lparr> r_id = 2, r_parent = ParentId 1, r_treeLevel = Some 1,
                r_hasChildren = Some True, r_parentId = ParentId 1 \<rparr>,
             \<lparr> r_id = 3, r_parent = ParentId 2, r_treeLevel = Some 2,
                r_hasChildren = None, r_parentId = ParentId 2 \<rparr>]"
  note inst = round_trip_identifiers [where h = chain_rows and flatArray = "[0, 1, 2]" and n = 2]
  have pre: "(\<forall>a \<in> set [0, 1, 2]. a < length chain_rows \<and> h_children (chain_rows ! a) = None)
        \<and> length [0::nat, 1, 2] \<le> Suc 2"
    by (simp add: chain_rows_def flat_row_def)
  have three: "Suc 2 = 3" by simp
  from inst have rt: "round_trip 3 chain_rows [0, 1, 2] = Some ?out" by (rule conjunct1)
  from inst have "(\<forall>a \<in> set [0, 1, 2]. a < length chain_rows \<and> h_children (chain_rows ! a) = None)
        \<and> length [0::nat, 1, 2] \<le> Suc 2 \<longrightarrow>
        (\<exists>roots h' out.
           convertParentChildFlatArrayToHierarchicalView (Suc 2) chain_rows [0, 1, 2] = Some (roots, h')
           \<and> obj_id h' ` reach h' roots = {k. rooted (flat_lookup chain_rows [0, 1, 2]) k}
           \<and> round_trip (Suc 2) chain_rows [0, 1, 2] = Some out
           \<and> set (map r_id out) = {k. rooted (flat_lookup chain_rows [0, 1, 2]) k}
           \<and> distinct (map r_id out)
           \<and> ((\<forall>a \<in> set [0, 1, 2]. rooted (flat_lookup chain_rows [0, 1, 2]) (obj_id chain_rows a))
                 \<longrightarrow> set (map r_id out) = obj_id chain_rows ` set [0, 1, 2]))"
    by (rule conjunct2)
  from this [rule_format, OF pre]
  obtain roots h' out
    where 1: "convertParentChildFlatArrayToHierarchicalView (Suc 2) chain_rows [0, 1, 2]
                = Some (roots, h')"
      and 2: "obj_id h' ` reach h' roots = {k. rooted (flat_lookup chain_rows [0, 1, 2]) k}"
      and 3: "round_trip (Suc 2) chain_rows [0, 1, 2] = Some out"
      and 4: "set (map r_id out) = {k. rooted (flat_lookup chain_rows [0, 1, 2]) k}"
    by (elim exE conjE)
  from 3 have "round_trip 3 chain_rows [0, 1, 2] = Some out" by (simp only: three)
  with rt have out: "out = ?out" by simp
  have "set (map r_id ?out) = {1, 2, 3}" by simp
  with 4 out have r: "{k. rooted (flat_lookup chain_rows [0, 1, 2]) k} = {1, 2, 3}" by simp
  from 1 have c1: "convertParentChildFlatArrayToHierarchicalView 3 chain_rows [0, 1, 2]
          = Some (roots, h')" by (simp only: three)
  from 2 r have c2: "obj_id h' ` reach h' roots = {1, 2, 3}" by simp
  from c1 c2 have "\<exists>roots h'. convertParentChildFlatArrayToHierarchicalView 3 chain_rows [0, 1, 2]
          = Some (roots, h') \<and> obj_id h' ` reach h' roots = {1, 2, 3}"
    by (intro exI [of _ roots] exI [of _ h'] conjI)
  with r show ?thesis by (rule conjI)
qed

text \<open>
  Claim C1 as stated fails in its general part: on \<open>[{id: 1}, {id: 2, parentId: 99}]\<close>
  the flat form holds the identifiers 1 and 2 and the round trip returns the identifier
  1 alone.
\<close>

theorem round_trip_loses_dangling_counterexample:
  "map (obj_id dangling_rows) [0, 1] = [1, 2]
   \<and> map_option (map r_id) (round_trip 2 dangling_rows [0, 1]) = Some [1]"
  by code_simp


end
